theory Spec2Isabelle
  imports Main "HOL-Library.Word"
begin

unbundle bit_operations_syntax

section \<open>Data model of Shannon.cpp\<close>

text \<open>
  The arithmetic coder of \<^verbatim>\<open>Shannon.cpp\<close> works on \<^verbatim>\<open>char\<close> symbols and
  \<^verbatim>\<open>uint32_t\<close> counters. A \<^verbatim>\<open>char\<close> is one byte; every counter, bound and product of
  the coder is a 32-bit word, whose \<open>+\<close>, \<open>-\<close> and \<open>*\<close> wrap around and whose \<open>div\<close> is
  the unsigned, truncating division of C++.
\<close>

type_synonym byte = "8 word"
type_synonym u32 = "32 word"

definition MAX_FREQ :: u32 where "MAX_FREQ = 16383"
definition TOP :: u32 where "TOP = 0xFFFF"
definition FIRST_QTR :: u32 where "FIRST_QTR = (TOP + 1) div 4"
definition HALF :: u32 where "HALF = 2 * FIRST_QTR"
definition THIRD_QTR :: u32 where "THIRD_QTR = 3 * FIRST_QTR"

record SymbolRange =
  low :: u32
  high :: u32
  count :: u32

text \<open>
  What the C++ standard leaves undefined and the program neither checks nor reports: a
  division by a zero divisor, and the use of a variable that a failed stream read has
  left without a value.
\<close>

datatype fault = DivisionByZero | IndeterminateRead

subsection \<open>\<^verbatim>\<open>std::map<char, V>\<close>\<close>

text \<open>
  A \<^verbatim>\<open>std::map<char, V>\<close> keeps its entries ordered by \<^verbatim>\<open>std::less<char>\<close>, and every
  range-for loop of the program visits them in that order. Whether \<^verbatim>\<open>char\<close> is signed
  is the compiler's choice, so the order takes it as a parameter: \<open>sg = True\<close> compares
  the bytes as two's complement numbers (-128 to 127), \<open>sg = False\<close> as 0 to 255.
  The map itself is the list of its entries in iteration order.
\<close>

definition char_less :: "bool \<Rightarrow> byte \<Rightarrow> byte \<Rightarrow> bool" where
  "char_less sg a b = (if sg then sint a < sint b else unat a < unat b)"

type_synonym 'v cmap = "(byte \<times> 'v) list"

text \<open>\<^verbatim>\<open>m[k] = v\<close>: overwrite the entry of \<open>k\<close>, or insert it at its place in the order.\<close>

fun map_put :: "bool \<Rightarrow> byte \<Rightarrow> 'v \<Rightarrow> 'v cmap \<Rightarrow> 'v cmap" where
  "map_put sg k v [] = [(k, v)]"
| "map_put sg k v ((k', v') # m) =
     (if k = k' then (k, v) # m
      else if char_less sg k k' then (k, v) # (k', v') # m
      else (k', v') # map_put sg k v m)"

text \<open>
  \<^verbatim>\<open>m[k]\<close> read as a value: the entry of \<open>k\<close>, and the value-initialised \<open>dflt\<close> when
  there is none (C++ then also inserts that entry, which \<open>map_touch\<close> does).
\<close>

definition map_get :: "'v \<Rightarrow> 'v cmap \<Rightarrow> byte \<Rightarrow> 'v" where
  "map_get dflt m k = (case map_of m k of None \<Rightarrow> dflt | Some v \<Rightarrow> v)"

definition map_touch :: "bool \<Rightarrow> 'v \<Rightarrow> byte \<Rightarrow> 'v cmap \<Rightarrow> 'v cmap" where
  "map_touch sg dflt k m = (case map_of m k of None \<Rightarrow> map_put sg k dflt m | Some v \<Rightarrow> m)"

section \<open>Frequency table and cumulative ranges\<close>

text \<open>
  \<^verbatim>\<open>for (char c : text) { if (freq[c] < MAX_FREQ) freq[c]++; }\<close>
\<close>

definition freq_step :: "bool \<Rightarrow> u32 cmap \<Rightarrow> byte \<Rightarrow> u32 cmap" where
  "freq_step sg freq c =
     (let freq' = map_touch sg 0 c freq;
          v = map_get 0 freq' c
      in if v < MAX_FREQ then map_put sg c (v + 1) freq' else freq')"

definition calculateFrequencies :: "bool \<Rightarrow> byte list \<Rightarrow> u32 cmap" where
  "calculateFrequencies sg text = foldl (freq_step sg) [] text"

text \<open>
  \<^verbatim>\<open>buildCumulativeFreq\<close>: the first loop sums the counts into \<open>tot\<close> (a
  \<^verbatim>\<open>uint32_t\<close>, so the sum wraps), the second gives every symbol, in the iteration
  order of \<open>freq\<close>, the range \<open>{cumulative, cumulative + count, tot}\<close>. Both callers
  pass an empty \<open>ranges\<close>.
\<close>

definition sum_counts :: "u32 cmap \<Rightarrow> u32" where
  "sum_counts freq = foldl (\<lambda>tot p. tot + snd p) 0 freq"

fun build_loop :: "bool \<Rightarrow> u32 \<Rightarrow> u32 cmap \<Rightarrow> u32 \<Rightarrow> SymbolRange cmap \<Rightarrow> SymbolRange cmap" where
  "build_loop sg tot [] cumulative ranges = ranges"
| "build_loop sg tot (p # freq) cumulative ranges =
     build_loop sg tot freq (cumulative + snd p)
       (map_put sg (fst p) \<lparr>low = cumulative, high = cumulative + snd p, count = tot\<rparr> ranges)"

definition buildCumulativeFreq :: "bool \<Rightarrow> u32 cmap \<Rightarrow> SymbolRange cmap \<times> u32" where
  "buildCumulativeFreq sg freq =
     (let tot = sum_counts freq in (build_loop sg tot freq 0 [], tot))"

section \<open>Bit sink and bit source\<close>

text \<open>A \<^verbatim>\<open>uint32_t\<close> written and read through a \<^verbatim>\<open>char*\<close>, least significant byte first.\<close>

definition le32 :: "u32 \<Rightarrow> byte list" where
  "le32 w = [ucast w, ucast (drop_bit 8 w), ucast (drop_bit 16 w), ucast (drop_bit 24 w)]"

definition from_le32 :: "byte \<Rightarrow> byte \<Rightarrow> byte \<Rightarrow> byte \<Rightarrow> u32" where
  "from_le32 b0 b1 b2 b3 =
     ucast b0 OR push_bit 8 (ucast b1) OR push_bit 16 (ucast b2) OR push_bit 24 (ucast b3)"

text \<open>
  \<^verbatim>\<open>writeBitVector\<close>: the loop shifts each bit into \<open>byte\<close> and puts the byte out when
  eight are in; a last partial byte is shifted up to the top.
\<close>

fun pack_loop :: "bool list \<Rightarrow> byte \<Rightarrow> nat \<Rightarrow> byte list" where
  "pack_loop [] byte bit_count =
     (if bit_count > 0 then [push_bit (8 - bit_count) byte] else [])"
| "pack_loop (b # bits) byte bit_count =
     (let byte' = push_bit 1 byte OR (if b then 1 else 0)
      in if bit_count + 1 = 8 then byte' # pack_loop bits 0 0
         else pack_loop bits byte' (bit_count + 1))"

definition writeBitVector :: "bool list \<Rightarrow> byte list" where
  "writeBitVector bits = le32 (word_of_nat (length bits)) @ pack_loop bits 0 0"

text \<open>
  \<^verbatim>\<open>readBitVector\<close>: \<open>for (i = 7; i >= 0 && bits.size() < bitSize; i--)\<close> inside
  \<open>while (in.get(byte) && bits.size() < bitSize)\<close>. A stream that ends early ends the
  loop; nothing compares the number of bits read with \<open>bitSize\<close>.
\<close>

fun unpack_byte :: "nat \<Rightarrow> byte \<Rightarrow> nat \<Rightarrow> bool list \<Rightarrow> bool list" where
  "unpack_byte bitSize byte 0 bits = bits"
| "unpack_byte bitSize byte (Suc i) bits =
     (if length bits < bitSize then unpack_byte bitSize byte i (bits @ [bit byte i])
      else bits)"

fun unpack_loop :: "nat \<Rightarrow> byte list \<Rightarrow> bool list \<Rightarrow> bool list" where
  "unpack_loop bitSize [] bits = bits"
| "unpack_loop bitSize (byte # inp) bits =
     (if length bits < bitSize then unpack_loop bitSize inp (unpack_byte bitSize byte 8 bits)
      else bits)"

definition readBitVector :: "byte list \<Rightarrow> fault + bool list" where
  "readBitVector inp =
     (case inp of
        b0 # b1 # b2 # b3 # rest \<Rightarrow> Inr (unpack_loop (unat (from_le32 b0 b1 b2 b3)) rest [])
      | _ \<Rightarrow> Inl IndeterminateRead)"

section \<open>The coder\<close>

text \<open>
  The narrowing of the interval, written twice in the source with the same text (in
  \<^verbatim>\<open>compressFile\<close> and in \<^verbatim>\<open>decompressFile\<close>):
  \<^verbatim>\<open>range = high - low + 1;
  high = low + (range * r.high) / r.count - 1;
  low  = low + (range * r.low) / r.count;\<close>
  The pair is \<open>(low, high)\<close>.
\<close>

definition narrow :: "SymbolRange \<Rightarrow> u32 \<times> u32 \<Rightarrow> fault + (u32 \<times> u32)" where
  "narrow r lh =
     (let rng = snd lh - fst lh + 1
      in if count r = 0 then Inl DivisionByZero
         else Inr (fst lh + (rng * low r) div count r,
                   fst lh + (rng * high r) div count r - 1))"

subsection \<open>Encoder\<close>

record encoder =
  enc_low :: u32
  enc_high :: u32
  pending_bits :: u32
  output_bits :: "bool list"

definition enc_init :: encoder where
  "enc_init = \<lparr>enc_low = 0, enc_high = TOP, pending_bits = 0, output_bits = []\<rparr>"

text \<open>\<^verbatim>\<open>ranges[current_char]\<close> of a symbol with no entry is the zero range, whose \<open>count\<close> is 0.\<close>

definition enc_narrow :: "SymbolRange cmap \<Rightarrow> byte \<Rightarrow> encoder \<Rightarrow> fault + encoder" where
  "enc_narrow ranges c s =
     (case narrow (map_get \<lparr>low = 0, high = 0, count = 0\<rparr> ranges c) (enc_low s, enc_high s) of
        Inl f \<Rightarrow> Inl f
      | Inr lh \<Rightarrow> Inr (s\<lparr>enc_low := fst lh, enc_high := snd lh\<rparr>))"

text \<open>One turn of the \<^verbatim>\<open>while (true)\<close> loop; \<open>None\<close> is its \<^verbatim>\<open>break\<close>.\<close>

definition enc_renorm_step :: "encoder \<Rightarrow> encoder option" where
  "enc_renorm_step s =
     (if enc_high s < HALF then
        Some \<lparr>enc_low = push_bit 1 (enc_low s),
              enc_high = push_bit 1 (enc_high s) OR 1,
              pending_bits = 0,
              output_bits = output_bits s @ False # replicate (unat (pending_bits s)) True\<rparr>
      else if enc_low s \<ge> HALF then
        Some \<lparr>enc_low = push_bit 1 (enc_low s - HALF),
              enc_high = push_bit 1 (enc_high s - HALF) OR 1,
              pending_bits = 0,
              output_bits = output_bits s @ True # replicate (unat (pending_bits s)) False\<rparr>
      else if enc_low s \<ge> FIRST_QTR \<and> enc_high s < THIRD_QTR then
        Some \<lparr>enc_low = push_bit 1 (enc_low s - FIRST_QTR),
              enc_high = push_bit 1 (enc_high s - FIRST_QTR) OR 1,
              pending_bits = pending_bits s + 1,
              output_bits = output_bits s\<rparr>
      else None)"

partial_function (option) enc_renorm :: "encoder \<Rightarrow> encoder option" where
  "enc_renorm s = (case enc_renorm_step s of None \<Rightarrow> Some s | Some s' \<Rightarrow> enc_renorm s')"

declare enc_renorm.simps [code]

text \<open>
  The loop over the text. \<open>None\<close>: a renormalisation loop that never ends;
  \<open>Some (Inl f)\<close>: undefined behaviour; \<open>Some (Inr s)\<close>: the state after the last symbol.
\<close>

fun encode_loop :: "SymbolRange cmap \<Rightarrow> byte list \<Rightarrow> encoder \<Rightarrow> (fault + encoder) option" where
  "encode_loop ranges [] s = Some (Inr s)"
| "encode_loop ranges (c # cs) s =
     (case enc_narrow ranges c s of
        Inl f \<Rightarrow> Some (Inl f)
      | Inr s' \<Rightarrow> (case enc_renorm s' of None \<Rightarrow> None | Some s'' \<Rightarrow> encode_loop ranges cs s''))"

text \<open>
  \<^verbatim>\<open>pending_bits++; if (low < FIRST_QTR) { push(false); while (pending_bits-- > 0) push(true); }
  else { push(true); while (pending_bits-- > 0) push(false); }\<close>
\<close>

definition enc_finish :: "encoder \<Rightarrow> bool list" where
  "enc_finish s =
     (if enc_low s < FIRST_QTR
      then output_bits s @ False # replicate (unat (pending_bits s + 1)) True
      else output_bits s @ True # replicate (unat (pending_bits s + 1)) False)"

definition encode :: "SymbolRange cmap \<Rightarrow> byte list \<Rightarrow> (fault + bool list) option" where
  "encode ranges text =
     (case encode_loop ranges text enc_init of
        None \<Rightarrow> None
      | Some (Inl f) \<Rightarrow> Some (Inl f)
      | Some (Inr s) \<Rightarrow> Some (Inr (enc_finish s)))"

text \<open>
  \<^verbatim>\<open>compressFile\<close>, from the bytes of the input file to the bytes of the output file:
  the number of table entries, the entries (symbol, count), the length of the text, the
  bit vector.
\<close>

definition write_freq :: "u32 cmap \<Rightarrow> byte list" where
  "write_freq freq = concat (map (\<lambda>p. fst p # le32 (snd p)) freq)"

definition compressFile :: "bool \<Rightarrow> byte list \<Rightarrow> (fault + byte list) option" where
  "compressFile sg text =
     (let freq = calculateFrequencies sg text;
          ranges = fst (buildCumulativeFreq sg freq)
      in case encode ranges text of
           None \<Rightarrow> None
         | Some (Inl f) \<Rightarrow> Some (Inl f)
         | Some (Inr bits) \<Rightarrow>
             Some (Inr (le32 (word_of_nat (length freq)) @ write_freq freq
                        @ le32 (word_of_nat (length text)) @ writeBitVector bits)))"

subsection \<open>Decoder\<close>

record decoder =
  dec_low :: u32
  dec_high :: u32
  dec_value :: u32
  bit_index :: nat
  result :: "byte list"

text \<open>
  \<^verbatim>\<open>for (int i = 0; i < 16 && bit_index < bits.size(); i++)
    value = (value << 1) | (bits[bit_index++] ? 1 : 0);\<close>
\<close>

definition shift_in :: "u32 \<Rightarrow> bool \<Rightarrow> u32" where
  "shift_in v b = push_bit 1 v OR (if b then 1 else 0)"

definition dec_init :: "bool list \<Rightarrow> decoder" where
  "dec_init bits =
     \<lparr>dec_low = 0, dec_high = TOP, dec_value = foldl shift_in 0 (take 16 bits),
      bit_index = min 16 (length bits), result = []\<rparr>"

text \<open>
  The linear scan over \<open>ranges\<close>, in iteration order, that stops at the first range
  holding \<open>scaled_value\<close>; \<open>symbol\<close> keeps its initial 0 when no range does.
\<close>

fun find_symbol :: "SymbolRange cmap \<Rightarrow> u32 \<Rightarrow> byte" where
  "find_symbol [] scaled_value = 0"
| "find_symbol ((c, r) # ranges) scaled_value =
     (if scaled_value \<ge> low r \<and> scaled_value < high r then c
      else find_symbol ranges scaled_value)"

definition scaled :: "u32 \<Rightarrow> decoder \<Rightarrow> u32" where
  "scaled tot s =
     ((dec_value s - dec_low s + 1) * tot - 1) div (dec_high s - dec_low s + 1)"

text \<open>
  The body of the decoding loop up to the renormalisation. The division by \<open>range\<close>
  and the division by \<open>count\<close> of the range that \<^verbatim>\<open>ranges[symbol]\<close> returns (the zero
  range when \<open>symbol\<close> has no entry) are undefined for a zero divisor.
\<close>

definition dec_narrow :: "SymbolRange cmap \<Rightarrow> u32 \<Rightarrow> decoder \<Rightarrow> fault + decoder" where
  "dec_narrow ranges tot s =
     (if dec_high s - dec_low s + 1 = 0 then Inl DivisionByZero
      else let symbol = find_symbol ranges (scaled tot s)
           in case narrow (map_get \<lparr>low = 0, high = 0, count = 0\<rparr> ranges symbol)
                          (dec_low s, dec_high s) of
                Inl f \<Rightarrow> Inl f
              | Inr lh \<Rightarrow> Inr (s\<lparr>dec_low := fst lh, dec_high := snd lh,
                                 result := result s @ [symbol]\<rparr>))"

text \<open>
  One turn of the decoder's \<^verbatim>\<open>while (true)\<close> loop: the same three tests, \<open>value\<close>
  shifted like \<open>low\<close>, then the next bit of the sequence, if there is one, into the low
  bit of \<open>value\<close>.
\<close>

definition next_bit :: "bool list \<Rightarrow> decoder \<Rightarrow> decoder" where
  "next_bit bits s =
     (if bit_index s < length bits
      then s\<lparr>dec_value := dec_value s OR (if bits ! bit_index s then 1 else 0),
              bit_index := bit_index s + 1\<rparr>
      else s)"

definition dec_renorm_step :: "bool list \<Rightarrow> decoder \<Rightarrow> decoder option" where
  "dec_renorm_step bits s =
     (if dec_high s < HALF then
        Some (next_bit bits (s\<lparr>dec_low := push_bit 1 (dec_low s),
                                dec_high := push_bit 1 (dec_high s) OR 1,
                                dec_value := push_bit 1 (dec_value s)\<rparr>))
      else if dec_low s \<ge> HALF then
        Some (next_bit bits (s\<lparr>dec_low := push_bit 1 (dec_low s - HALF),
                                dec_high := push_bit 1 (dec_high s - HALF) OR 1,
                                dec_value := push_bit 1 (dec_value s - HALF)\<rparr>))
      else if dec_low s \<ge> FIRST_QTR \<and> dec_high s < THIRD_QTR then
        Some (next_bit bits (s\<lparr>dec_low := push_bit 1 (dec_low s - FIRST_QTR),
                                dec_high := push_bit 1 (dec_high s - FIRST_QTR) OR 1,
                                dec_value := push_bit 1 (dec_value s - FIRST_QTR)\<rparr>))
      else None)"

partial_function (option) dec_renorm :: "bool list \<Rightarrow> decoder \<Rightarrow> decoder option" where
  "dec_renorm bits s =
     (case dec_renorm_step bits s of None \<Rightarrow> Some s | Some s' \<Rightarrow> dec_renorm bits s')"

declare dec_renorm.simps [code]

text \<open>\<^verbatim>\<open>for (uint32_t i = 0; i < text_size; i++)\<close>, as recursion on the turns left.\<close>

fun decode_loop ::
  "SymbolRange cmap \<Rightarrow> u32 \<Rightarrow> bool list \<Rightarrow> nat \<Rightarrow> decoder \<Rightarrow> (fault + decoder) option" where
  "decode_loop ranges tot bits 0 s = Some (Inr s)"
| "decode_loop ranges tot bits (Suc n) s =
     (case dec_narrow ranges tot s of
        Inl f \<Rightarrow> Some (Inl f)
      | Inr s' \<Rightarrow> (case dec_renorm bits s' of
                     None \<Rightarrow> None
                   | Some s'' \<Rightarrow> decode_loop ranges tot bits n s''))"

definition decode :: "u32 cmap \<Rightarrow> bool \<Rightarrow> u32 \<Rightarrow> bool list \<Rightarrow> (fault + byte list) option" where
  "decode freq sg text_size bits =
     (let rt = buildCumulativeFreq sg freq
      in case decode_loop (fst rt) (snd rt) bits (unat text_size) (dec_init bits) of
           None \<Rightarrow> None
         | Some (Inl f) \<Rightarrow> Some (Inl f)
         | Some (Inr s) \<Rightarrow> Some (Inr (result s)))"

text \<open>
  The header of the container, read field by field. No read is checked: after a read
  that the end of the stream cuts short, the variable read has no determined value.
\<close>

fun read_freq :: "bool \<Rightarrow> nat \<Rightarrow> byte list \<Rightarrow> u32 cmap \<Rightarrow> fault + (u32 cmap \<times> byte list)" where
  "read_freq sg 0 inp freq = Inr (freq, inp)"
| "read_freq sg (Suc n) inp freq =
     (case inp of
        current_char # b0 # b1 # b2 # b3 # rest \<Rightarrow>
          read_freq sg n rest (map_put sg current_char (from_le32 b0 b1 b2 b3) freq)
      | _ \<Rightarrow> Inl IndeterminateRead)"

definition decompressFile :: "bool \<Rightarrow> byte list \<Rightarrow> (fault + byte list) option" where
  "decompressFile sg inp =
     (case inp of
        b0 # b1 # b2 # b3 # inp1 \<Rightarrow>
          (case read_freq sg (unat (from_le32 b0 b1 b2 b3)) inp1 [] of
             Inl f \<Rightarrow> Some (Inl f)
           | Inr (freq, inp2) \<Rightarrow>
               (case inp2 of
                  t0 # t1 # t2 # t3 # inp3 \<Rightarrow>
                    (case readBitVector inp3 of
                       Inl f \<Rightarrow> Some (Inl f)
                     | Inr bits \<Rightarrow> decode freq sg (from_le32 t0 t1 t2 t3) bits)
                | _ \<Rightarrow> Some (Inl IndeterminateRead)))
      | _ \<Rightarrow> Some (Inl IndeterminateRead))"

text \<open>
  The bits of \<open>byte\<close> below position \<open>k\<close>, most significant first: what \<^verbatim>\<open>writeBitVector\<close>
  has shifted into \<open>byte\<close> after \<open>k\<close> turns, and for \<open>k = 8\<close> what \<^verbatim>\<open>readBitVector\<close>
  takes out of a whole byte.
\<close>

definition acc_bits :: "byte \<Rightarrow> nat \<Rightarrow> bool list" where
  "acc_bits byte k = rev (map (bit byte) [0..<k])"

section \<open>Notions used in the statements\<close>

text \<open>
  A frequency table of the data model: the entries in the order of the map, every count
  \<open>v\<close> with \<open>0 < v \<le> MAX_FREQ\<close>. \<^verbatim>\<open>calculateFrequencies\<close> returns such tables; the
  table that \<^verbatim>\<open>decompressFile\<close> reads from a container is whatever the container holds.
\<close>

definition freq_table :: "bool \<Rightarrow> u32 cmap \<Rightarrow> bool" where
  "freq_table sg freq =
     (sorted_wrt (char_less sg) (map fst freq) \<and> list_all (\<lambda>p. 0 < snd p \<and> snd p \<le> MAX_FREQ) freq)"

text \<open>
  The ranges of \<^verbatim>\<open>buildCumulativeFreq\<close> written as one pass over the table: on a table in
  map order every \<^verbatim>\<open>ranges[pair.first] = ...\<close> appends at the end.
\<close>

fun cum_ranges :: "u32 \<Rightarrow> u32 \<Rightarrow> u32 cmap \<Rightarrow> SymbolRange cmap" where
  "cum_ranges tot cumulative [] = []"
| "cum_ranges tot cumulative (p # freq) =
     (fst p, \<lparr>low = cumulative, high = cumulative + snd p, count = tot\<rparr>)
       # cum_ranges tot (cumulative + snd p) freq"

text \<open>\<open>v\<close> lies in the half-open interval \<open>[low, high)\<close> of the range \<open>r\<close>.\<close>

definition in_range :: "u32 \<Rightarrow> SymbolRange \<Rightarrow> bool" where
  "in_range v r = (low r \<le> v \<and> v < high r)"

text \<open>The sum of the counts of a table as a natural number, without the wrap-around.\<close>

definition total_nat :: "u32 cmap \<Rightarrow> nat" where
  "total_nat freq = sum_list (map (\<lambda>p. unat (snd p)) freq)"


text \<open>The table that the decoder's loop \<^verbatim>\<open>freq[current_char] = frequency\<close> builds from the entries.\<close>

definition table_of :: "bool \<Rightarrow> u32 cmap \<Rightarrow> u32 cmap" where
  "table_of sg entries = foldl (\<lambda>freq p. map_put sg (fst p) (snd p) freq) [] entries"


text \<open>
  The three tests of the renormalisation loops, in the order of the \<^verbatim>\<open>if\<close> chain that both
  loops share, and the update of \<open>(low, high)\<close> that goes with each: subtract an offset (0,
  \<open>HALF\<close> or \<open>FIRST_QTR\<close>), shift left by one, set the low bit of \<open>high\<close>. \<open>renorm_case\<close>
  names the offset of the branch taken, \<open>None\<close> for \<^verbatim>\<open>break\<close>.
\<close>

definition renorm_case :: "u32 \<times> u32 \<Rightarrow> u32 option" where
  "renorm_case lh =
     (if snd lh < HALF then Some 0
      else if fst lh \<ge> HALF then Some HALF
      else if fst lh \<ge> FIRST_QTR \<and> snd lh < THIRD_QTR then Some FIRST_QTR
      else None)"

definition shift_interval :: "u32 \<Rightarrow> u32 \<times> u32 \<Rightarrow> u32 \<times> u32" where
  "shift_interval off lh = (push_bit 1 (fst lh - off), push_bit 1 (snd lh - off) OR 1)"

text \<open>
  The interval \<open>(low, high)\<close> is a non-empty part of the 16-bit range; it is wide when it
  holds more than a quarter of that range, as it does when no renormalisation test applies.
\<close>

definition interval_ok :: "u32 \<times> u32 \<Rightarrow> bool" where
  "interval_ok lh = (fst lh \<le> snd lh \<and> snd lh \<le> TOP)"

definition wide :: "u32 \<times> u32 \<Rightarrow> bool" where
  "wide lh = (interval_ok lh \<and> unat (fst lh) + 16385 \<le> unat (snd lh))"

text \<open>
  The coder's \<open>range = high - low + 1\<close> as a number. An interval is bounded when \<open>low\<close>
  plus that range stays within \<open>2 ^ 16\<close>: a non-empty part of the 16-bit range, or an
  empty interval \<open>high = low - 1\<close> (range 0) with \<open>low \<le> 2 ^ 16\<close>.
\<close>

definition range_of :: "u32 \<times> u32 \<Rightarrow> nat" where
  "range_of lh = unat (snd lh - fst lh + 1)"

definition bounded :: "u32 \<times> u32 \<Rightarrow> bool" where
  "bounded lh = (unat (fst lh) + range_of lh \<le> 65536)"

text \<open>
  The states of a run of the encoder's loop over the text \<open>ws\<close>, each with the symbols
  still to encode: the state after the initialisation, after the narrowing for a symbol,
  after each turn of the renormalisation loop, and at the \<^verbatim>\<open>break\<close> that goes on to the
  next symbol.
\<close>

datatype phase = AtSymbol | InRenorm

inductive enc_run :: "SymbolRange cmap \<Rightarrow> byte list \<Rightarrow> byte list \<times> phase \<times> encoder \<Rightarrow> bool"
  for ranges :: "SymbolRange cmap" and ws :: "byte list" where
  enc_start: "enc_run ranges ws (ws, AtSymbol, enc_init)"
| enc_narrowed: "enc_run ranges ws (c # cs, AtSymbol, s) \<Longrightarrow> enc_narrow ranges c s = Inr s' \<Longrightarrow>
     enc_run ranges ws (cs, InRenorm, s')"
| enc_shifted: "enc_run ranges ws (cs, InRenorm, s) \<Longrightarrow> enc_renorm_step s = Some s' \<Longrightarrow>
     enc_run ranges ws (cs, InRenorm, s')"
| enc_settled: "enc_run ranges ws (cs, InRenorm, s) \<Longrightarrow> enc_renorm_step s = None \<Longrightarrow>
     enc_run ranges ws (cs, AtSymbol, s)"

text \<open>The same for the decoder's loop, each state with the number of symbols still to decode.\<close>

inductive dec_run ::
  "SymbolRange cmap \<Rightarrow> u32 \<Rightarrow> bool list \<Rightarrow> nat \<Rightarrow> nat \<times> phase \<times> decoder \<Rightarrow> bool"
  for ranges :: "SymbolRange cmap" and tot :: u32 and bits :: "bool list" and n :: nat where
  dec_start: "dec_run ranges tot bits n (n, AtSymbol, dec_init bits)"
| dec_narrowed: "dec_run ranges tot bits n (Suc k, AtSymbol, s) \<Longrightarrow> dec_narrow ranges tot s = Inr s' \<Longrightarrow>
     dec_run ranges tot bits n (k, InRenorm, s')"
| dec_shifted: "dec_run ranges tot bits n (k, InRenorm, s) \<Longrightarrow> dec_renorm_step bits s = Some s' \<Longrightarrow>
     dec_run ranges tot bits n (k, InRenorm, s')"
| dec_settled: "dec_run ranges tot bits n (k, InRenorm, s) \<Longrightarrow> dec_renorm_step bits s = None \<Longrightarrow>
     dec_run ranges tot bits n (k, AtSymbol, s)"

text \<open>The 256 byte values, each once.\<close>

definition all_bytes :: "byte list" where
  "all_bytes = map word_of_nat [0..<256]"

text \<open>
  An empty interval \<open>high = low - 1\<close> with \<open>1 \<le> low \<le> 2 ^ 16\<close>: what a narrowing leaves
  when the range of the symbol scales down to width 0.
\<close>

definition degenerate :: "u32 \<times> u32 \<Rightarrow> bool" where
  "degenerate lh = (snd lh + 1 = fst lh \<and> 1 \<le> unat (fst lh) \<and> unat (fst lh) \<le> 65536)"

section \<open>The encoder as the specification words it\<close>

text \<open>
  The arithmetic encoder of the specification (its section 4.3), on natural numbers with
  exact arithmetic. The state is \<open>(low, high)\<close>, the count \<open>pendingBits\<close> and the bits emitted
  so far; \<open>TOP = 2 ^ 16 - 1\<close>, \<open>FIRST_QTR = (TOP + 1) / 4\<close>, \<open>HALF = 2 * FIRST_QTR\<close>,
  \<open>THIRD_QTR = 3 * FIRST_QTR\<close>. These definitions follow the specification, not the source.
\<close>

record spec_coder =
  s_low :: nat
  s_high :: nat
  s_pending :: nat
  s_bits :: "bool list"

definition S_TOP :: nat where "S_TOP = 2 ^ 16 - 1"
definition S_FIRST_QTR :: nat where "S_FIRST_QTR = (S_TOP + 1) div 4"
definition S_HALF :: nat where "S_HALF = 2 * S_FIRST_QTR"
definition S_THIRD_QTR :: nat where "S_THIRD_QTR = 3 * S_FIRST_QTR"

definition spec_init :: spec_coder where
  "spec_init = \<lparr>s_low = 0, s_high = S_TOP, s_pending = 0, s_bits = []\<rparr>"

text \<open>
  The cumulative ranges: each symbol of the table, in the order of the table, gets
  \<open>[cumulativeBefore, cumulativeBefore + count)\<close> and the grand total of the counts.
\<close>

fun spec_cumulative :: "nat \<Rightarrow> nat \<Rightarrow> (byte \<times> nat) list \<Rightarrow> (byte \<times> nat \<times> nat \<times> nat) list" where
  "spec_cumulative tot before [] = []"
| "spec_cumulative tot before ((c, n) # freq) =
     (c, before, before + n, tot) # spec_cumulative tot (before + n) freq"

definition spec_ranges :: "u32 cmap \<Rightarrow> (byte \<times> nat \<times> nat \<times> nat) list" where
  "spec_ranges freq =
     spec_cumulative (sum_list (map (\<lambda>p. unat (snd p)) freq)) 0 (map (\<lambda>p. (fst p, unat (snd p))) freq)"

text \<open>
  Steps 1 and 2: \<open>range = high - low + 1\<close>, \<open>high = low + range * symbolHigh / total - 1\<close>,
  \<open>low = low + range * symbolLow / total\<close>, the division truncating.
\<close>

definition spec_narrow :: "nat \<times> nat \<times> nat \<Rightarrow> spec_coder \<Rightarrow> spec_coder" where
  "spec_narrow r st =
     (case r of (symbolLow, symbolHigh, tot) \<Rightarrow>
        let rng = s_high st - s_low st + 1
        in st\<lparr>s_low := s_low st + rng * symbolLow div tot,
               s_high := s_low st + rng * symbolHigh div tot - 1\<rparr>)"

text \<open>
  Step 3, one application: E1 when \<open>high < HALF\<close>, E2 when \<open>low \<ge> HALF\<close>, E3 when
  \<open>low \<ge> FIRST_QTR\<close> and \<open>high < THIRD_QTR\<close> and the interval straddles the midpoint (so
  that neither E1 nor E2 applies); \<open>None\<close> when none of the three holds.
\<close>

definition spec_renorm_step :: "spec_coder \<Rightarrow> spec_coder option" where
  "spec_renorm_step st =
     (if s_high st < S_HALF then
        Some \<lparr>s_low = 2 * s_low st, s_high = 2 * s_high st + 1, s_pending = 0,
              s_bits = s_bits st @ [False] @ replicate (s_pending st) True\<rparr>
      else if s_low st \<ge> S_HALF then
        Some \<lparr>s_low = 2 * (s_low st - S_HALF), s_high = 2 * (s_high st - S_HALF) + 1, s_pending = 0,
              s_bits = s_bits st @ [True] @ replicate (s_pending st) False\<rparr>
      else if s_low st \<ge> S_FIRST_QTR \<and> s_high st < S_THIRD_QTR then
        Some \<lparr>s_low = 2 * (s_low st - S_FIRST_QTR), s_high = 2 * (s_high st - S_FIRST_QTR) + 1,
              s_pending = s_pending st + 1, s_bits = s_bits st\<rparr>
      else None)"

text \<open>Step 3, the loop: apply one of E1, E2, E3 until none holds.\<close>

partial_function (option) spec_renorm :: "spec_coder \<Rightarrow> spec_coder option" where
  "spec_renorm st = (case spec_renorm_step st of None \<Rightarrow> Some st | Some st' \<Rightarrow> spec_renorm st')"

declare spec_renorm.simps [code]

text \<open>
  The symbols in order; a symbol that is not in the table has no range (the specification
  leaves that case undefined), and a renormalisation that does not end gives no result.
\<close>

fun spec_loop :: "(byte \<times> nat \<times> nat \<times> nat) list \<Rightarrow> byte list \<Rightarrow> spec_coder \<Rightarrow> spec_coder option" where
  "spec_loop ranges [] st = Some st"
| "spec_loop ranges (c # cs) st =
     (case map_of ranges c of
        None \<Rightarrow> None
      | Some r \<Rightarrow> (case spec_renorm (spec_narrow r st) of
                     None \<Rightarrow> None
                   | Some st' \<Rightarrow> spec_loop ranges cs st'))"

text \<open>
  Step 4: if \<open>low < FIRST_QTR\<close>, 0 then \<open>pendingBits + 1\<close> ones; else 1 then
  \<open>pendingBits + 1\<close> zeros.
\<close>

definition spec_finish :: "spec_coder \<Rightarrow> bool list" where
  "spec_finish st =
     (if s_low st < S_FIRST_QTR
      then s_bits st @ [False] @ replicate (s_pending st + 1) True
      else s_bits st @ [True] @ replicate (s_pending st + 1) False)"

definition spec_encode :: "(byte \<times> nat \<times> nat \<times> nat) list \<Rightarrow> byte list \<Rightarrow> bool list option" where
  "spec_encode ranges ws = map_option spec_finish (spec_loop ranges ws spec_init)"

text \<open>The state of the source's encoder read as a state of the specification's.\<close>

definition abstract :: "encoder \<Rightarrow> spec_coder" where
  "abstract s =
     \<lparr>s_low = unat (enc_low s), s_high = unat (enc_high s), s_pending = unat (pending_bits s),
      s_bits = output_bits s\<rparr>"

section \<open>Bit sink and bit source: the round trip\<close>

lemma from_le32_le32: "from_le32 (ucast w) (ucast (drop_bit 8 w)) (ucast (drop_bit 16 w)) (ucast (drop_bit 24 w)) = w"
proof (rule bit_word_eqI)
  fix n assume n: "n < LENGTH(32)"
  then consider "n < 8" | "8 \<le> n" "n < 16" | "16 \<le> n" "n < 24" | "24 \<le> n" "n < 32"
    by fastforce
  then show "bit (from_le32 (ucast w) (ucast (drop_bit 8 w)) (ucast (drop_bit 16 w)) (ucast (drop_bit 24 w))) n = bit w n"
    by cases (auto simp: from_le32_def bit_simps)
qed

lemma acc_bits_shift:
  assumes "k < 8"
  shows "acc_bits (push_bit 1 byte OR (if b then 1 else 0)) (Suc k) = acc_bits byte k @ [b]"
proof -
  let ?b' = "push_bit 1 byte OR (if b then 1 else 0)"
  have u: "[0..<Suc k] = 0 # map Suc [0..<k]"
    by (simp add: upt_conv_Cons map_Suc_upt del: upt_Suc)
  have "bit ?b' (Suc x) = bit byte x" if "x < k" for x
    using that assms
    by (simp only: bit_or_iff bit_push_bit_iff possible_bit_word) (auto simp: bit_simps)
  then have m: "map (bit ?b') (map Suc [0..<k]) = map (bit byte) [0..<k]"
    by simp
  have z: "bit ?b' 0 = b"
    by (simp only: bit_or_iff bit_push_bit_iff) (auto simp: bit_0)
  show ?thesis
    unfolding acc_bits_def u using m z by simp
qed

lemma unpack_byte_eq:
  "unpack_byte n byte i acc = acc @ take (n - length acc) (acc_bits byte i)"
proof (induction i arbitrary: acc)
  case 0 show ?case by (simp add: acc_bits_def)
next
  case (Suc i)
  show ?case
  proof (cases "length acc < n")
    case True
    then obtain m where m: "n - length acc = Suc m" by (cases "n - length acc") auto
    then have "n - Suc (length acc) = m" by simp
    with True m show ?thesis by (simp add: Suc acc_bits_def)
  next
    case False then show ?thesis by simp
  qed
qed

lemma unpack_loop_eq:
  "unpack_loop n inp acc = acc @ take (n - length acc) (concat (map (\<lambda>b. acc_bits b 8) inp))"
proof (induction inp arbitrary: acc)
  case Nil show ?case by simp
next
  case (Cons b inp)
  show ?case
  proof (cases "length acc < n")
    case True
    then show ?thesis by (simp add: Cons unpack_byte_eq min_def take_all_iff) 
  next
    case False then show ?thesis by simp
  qed
qed

lemma acc_bits_push:
  assumes "k \<le> 8"
  shows "acc_bits (push_bit (8 - k) byte) 8 = acc_bits byte k @ replicate (8 - k) False"
proof -
  have "map (bit (push_bit (8 - k) byte)) [0..<8] = replicate (8 - k) False @ map (bit byte) [0..<k]"
  proof (rule nth_equalityI)
    show "length (map (bit (push_bit (8 - k) byte)) [0..<8]) = length (replicate (8 - k) False @ map (bit byte) [0..<k])"
      using assms by simp
  next
    fix i assume "i < length (map (bit (push_bit (8 - k) byte)) [0..<8])"
    then have i: "i < 8" by simp
    have L: "map (bit (push_bit (8 - k) byte)) [0..<8] ! i = bit (push_bit (8 - k) byte) i"
      using i by simp
    have B: "bit (push_bit (8 - k) byte) i = (8 - k \<le> i \<and> bit byte (i - (8 - k)))"
      using i by (simp add: bit_push_bit_iff possible_bit_word)
    have R: "(replicate (8 - k) False @ map (bit byte) [0..<k]) ! i =
        (if i < 8 - k then False else bit byte (i - (8 - k)))"
      using i assms by (auto simp: nth_append)
    show "map (bit (push_bit (8 - k) byte)) [0..<8] ! i = (replicate (8 - k) False @ map (bit byte) [0..<k]) ! i"
      unfolding L B R by auto
  qed
  then show ?thesis by (simp add: acc_bits_def)
qed

lemma pack_loop_bits:
  "k < 8 \<Longrightarrow> \<exists>pad. concat (map (\<lambda>b. acc_bits b 8) (pack_loop bits byte k)) = acc_bits byte k @ bits @ pad"
proof (induction bits arbitrary: byte k)
  case Nil
  then have "k \<le> 8" by simp
  from acc_bits_push[OF this, of byte] show ?case by (auto simp: acc_bits_def)
next
  case (Cons b bits)
  define byte' where "byte' = push_bit 1 byte OR (if b then 1 else 0)"
  have sh: "acc_bits byte' (Suc k) = acc_bits byte k @ [b]"
    unfolding byte'_def by (rule acc_bits_shift[OF Cons.prems])
  show ?case
  proof (cases "k + 1 = 8")
    case True
    have p: "pack_loop (b # bits) byte k = byte' # pack_loop bits 0 0"
      using True by (simp add: Let_def byte'_def)
    from Cons.IH[of 0 0] obtain pad where
      "concat (map (\<lambda>b. acc_bits b 8) (pack_loop bits 0 0)) = acc_bits 0 0 @ bits @ pad" by auto
    then have "concat (map (\<lambda>b. acc_bits b 8) (pack_loop (b # bits) byte k)) =
        acc_bits byte k @ (b # bits) @ pad"
      using True sh unfolding p by (simp add: acc_bits_def)
    then show ?thesis by blast
  next
    case False
    with Cons.prems have k: "Suc k < 8" by simp
    have p: "pack_loop (b # bits) byte k = pack_loop bits byte' (Suc k)"
      using False by (simp add: Let_def byte'_def)
    from Cons.IH[OF k, of byte'] obtain pad where
      "concat (map (\<lambda>b. acc_bits b 8) (pack_loop bits byte' (Suc k))) =
         acc_bits byte' (Suc k) @ bits @ pad" by auto
    then have "concat (map (\<lambda>b. acc_bits b 8) (pack_loop (b # bits) byte k)) =
        acc_bits byte k @ (b # bits) @ pad"
      unfolding p sh by simp
    then show ?thesis by blast
  qed
qed

lemma read_write_take:
  "readBitVector (writeBitVector bits) = Inr (take (length bits mod 2 ^ 32) bits)"
proof -
  obtain pad where pad:
    "concat (map (\<lambda>b. acc_bits b 8) (pack_loop bits 0 0)) = bits @ pad"
    using pack_loop_bits[of 0 bits 0] by (auto simp: acc_bits_def)
  have n: "unat (word_of_nat (length bits) :: u32) = length bits mod 2 ^ 32"
    by (simp add: unat_of_nat)
  show ?thesis
    by (simp add: readBitVector_def writeBitVector_def le32_def from_le32_le32 unpack_loop_eq
        pad n min_def)
qed

section \<open>The map and the frequency table\<close>

lemma char_less_irrefl: "\<not> char_less sg a a"
  by (simp add: char_less_def)

lemma char_less_trans: "char_less sg a b \<Longrightarrow> char_less sg b c \<Longrightarrow> char_less sg a c"
  by (auto simp: char_less_def split: if_splits)

lemma char_less_total: "a \<noteq> b \<Longrightarrow> \<not> char_less sg a b \<Longrightarrow> char_less sg b a"
proof (cases sg)
  case True
  assume "a \<noteq> b" "\<not> char_less sg a b"
  then have "sint a \<noteq> sint b" "\<not> sint a < sint b"
    using True signed_word_eqI[of a b] by (auto simp: char_less_def)
  then show ?thesis using True by (simp add: char_less_def)
next
  case False
  assume "a \<noteq> b" "\<not> char_less sg a b"
  then have "unat a \<noteq> unat b" "\<not> unat a < unat b"
    using False by (auto simp: char_less_def word_unat_eq_iff)
  then show ?thesis using False by (simp add: char_less_def)
qed

lemma sorted_char_less_distinct:
  "sorted_wrt (char_less sg) ks \<Longrightarrow> distinct ks"
  by (induction ks) (auto simp: char_less_irrefl)

lemma map_of_map_put: "map_of (map_put sg k v m) = (map_of m)(k \<mapsto> v)"
  by (induction m) (auto simp: fun_eq_iff)

lemma keys_map_put: "fst ` set (map_put sg k v m) = insert k (fst ` set m)"
proof (induction m)
  case Nil show ?case by simp
next
  case (Cons p m)
  obtain k' v' where p: "p = (k', v')" by (cases p)
  show ?case
    unfolding p by (simp add: Cons insert_commute)
qed

lemma sorted_map_put:
  "sorted_wrt (char_less sg) (map fst m) \<Longrightarrow> sorted_wrt (char_less sg) (map fst (map_put sg k v m))"
proof (induction m)
  case Nil show ?case by simp
next
  case (Cons p m)
  obtain k' v' where p: "p = (k', v')" by (cases p)
  show ?case
  proof (cases "k = k'")
    case True with Cons.prems p show ?thesis by simp
  next
    case ne: False
    show ?thesis
    proof (cases "char_less sg k k'")
      case True
      with Cons.prems p ne show ?thesis by (auto intro: char_less_trans)
    next
      case False
      with ne have "char_less sg k' k" by (rule char_less_total)
      moreover have "sorted_wrt (char_less sg) (map fst (map_put sg k v m))"
        using Cons by simp
      moreover have "\<forall>x \<in> set (map fst (map_put sg k v m)). char_less sg k' x"
        using Cons.prems p \<open>char_less sg k' k\<close> by (auto simp: keys_map_put)
      ultimately show ?thesis using p ne False by simp
    qed
  qed
qed

lemma map_of_freq_step:
  "map_of (freq_step sg m c) =
     (map_of m)(c \<mapsto> (if map_get 0 m c < MAX_FREQ then map_get 0 m c + 1 else map_get 0 m c))"
  by (auto simp: freq_step_def map_touch_def map_get_def Let_def map_of_map_put fun_eq_iff
      split: option.splits)

lemma keys_freq_step: "fst ` set (freq_step sg m c) = insert c (fst ` set m)"
proof (cases "map_of m c")
  case None
  then show ?thesis
    by (simp add: freq_step_def map_touch_def Let_def keys_map_put)
next
  case (Some v)
  then have "c \<in> fst ` set m" by (force dest: map_of_SomeD)
  with Some show ?thesis
    by (auto simp: freq_step_def map_touch_def Let_def keys_map_put)
qed

lemma sorted_freq_step:
  "sorted_wrt (char_less sg) (map fst m) \<Longrightarrow> sorted_wrt (char_less sg) (map fst (freq_step sg m c))"
  by (simp add: freq_step_def map_touch_def Let_def sorted_map_put split: option.splits)

lemma calculateFrequencies_snoc:
  "calculateFrequencies sg (ws @ [c]) = freq_step sg (calculateFrequencies sg ws) c"
  by (simp add: calculateFrequencies_def)

lemma sorted_calculateFrequencies:
  "sorted_wrt (char_less sg) (map fst (calculateFrequencies sg ws))"
  by (induction ws rule: rev_induct)
     (simp_all add: calculateFrequencies_snoc sorted_freq_step, simp add: calculateFrequencies_def)

lemma keys_calculateFrequencies:
  "fst ` set (calculateFrequencies sg ws) = set ws"
  by (induction ws rule: rev_induct)
     (simp_all add: calculateFrequencies_snoc keys_freq_step, simp add: calculateFrequencies_def)

lemma clamp_of_nat_less:
  "(word_of_nat (min n 16383) :: u32) < MAX_FREQ \<longleftrightarrow> n < 16383"
  by (simp add: MAX_FREQ_def word_less_nat_alt unat_of_nat min_def)

lemma map_of_calculateFrequencies:
  "map_of (calculateFrequencies sg ws) c =
     (if c \<in> set ws then Some (word_of_nat (min (count_list ws c) 16383)) else None)"
proof (induction ws arbitrary: c rule: rev_induct)
  case Nil show ?case by (simp add: calculateFrequencies_def)
next
  case (snoc x xs)
  have g: "map_get 0 (calculateFrequencies sg xs) x = word_of_nat (min (count_list xs x) 16383)"
    by (simp add: map_get_def snoc count_list_0_iff)
  show ?case
    unfolding calculateFrequencies_snoc map_of_freq_step g clamp_of_nat_less
    using snoc by (auto simp: min_def)
qed


lemma calculateFrequencies_entry:
  assumes "(c, v) \<in> set (calculateFrequencies sg ws)"
  shows "c \<in> set ws \<and> v = word_of_nat (min (count_list ws c) 16383)"
proof -
  have "distinct (map fst (calculateFrequencies sg ws))"
    by (rule sorted_char_less_distinct[OF sorted_calculateFrequencies])
  with assms have "map_of (calculateFrequencies sg ws) c = Some v" by simp
  then show ?thesis
    by (auto simp: map_of_calculateFrequencies split: if_splits)
qed

lemma count_list_pos: "c \<in> set ws \<Longrightarrow> 0 < count_list ws c"
  by (induction ws) auto

section \<open>The cumulative ranges\<close>

lemma map_put_append:
  "\<forall>x \<in> fst ` set m. char_less sg x k \<Longrightarrow> map_put sg k v m = m @ [(k, v)]"
proof (induction m)
  case Nil show ?case by simp
next
  case (Cons p m)
  obtain k' v' where p: "p = (k', v')" by (cases p)
  from Cons.prems p have l: "char_less sg k' k" by simp
  then have "k \<noteq> k'" "\<not> char_less sg k k'"
    using char_less_irrefl char_less_trans by blast+
  with Cons p show ?case by simp
qed

lemma build_loop_cum_ranges:
  "sorted_wrt (char_less sg) (map fst ranges @ map fst freq) \<Longrightarrow>
   build_loop sg tot freq cumulative ranges = ranges @ cum_ranges tot cumulative freq"
proof (induction freq arbitrary: cumulative ranges)
  case Nil show ?case by simp
next
  case (Cons p freq)
  from Cons.prems have "\<forall>x \<in> fst ` set ranges. char_less sg x (fst p)"
    by (auto simp: sorted_wrt_append)
  then have mp: "map_put sg (fst p) r ranges = ranges @ [(fst p, r)]" for r
    by (rule map_put_append)
  from Cons.prems have "sorted_wrt (char_less sg) (map fst (ranges @ [(fst p, r)]) @ map fst freq)" for r
    by (auto simp: sorted_wrt_append)
  from Cons.IH[OF this] show ?case
    by (simp add: mp)
qed

lemma buildCumulativeFreq_sorted:
  "sorted_wrt (char_less sg) (map fst freq) \<Longrightarrow>
   buildCumulativeFreq sg freq = (cum_ranges (sum_counts freq) 0 freq, sum_counts freq)"
  using build_loop_cum_ranges[of sg "[]" freq "sum_counts freq" 0]
  by (simp add: buildCumulativeFreq_def Let_def)

lemma keys_cum_ranges: "map fst (cum_ranges tot cumulative freq) = map fst freq"
  by (induction freq arbitrary: cumulative) auto

lemma length_cum_ranges: "length (cum_ranges tot cumulative freq) = length freq"
  by (induction freq arbitrary: cumulative) auto

lemma count_cum_ranges: "p \<in> set (cum_ranges tot cumulative freq) \<Longrightarrow> count (snd p) = tot"
  by (induction freq arbitrary: cumulative) auto

text \<open>The sum of the counts as a natural number, and when the 32-bit sum is that number.\<close>

lemma sum_counts_foldl:
  "foldl (\<lambda>t p. t + snd p) a freq = a + sum_list (map snd freq)"
  by (induction freq arbitrary: a) (auto simp: add.assoc)

lemma sum_counts_sum_list: "sum_counts freq = sum_list (map snd freq)"
  by (simp add: sum_counts_def sum_counts_foldl)

lemma unat_sum_list_le:
  "unat (sum_list (ws :: u32 list)) \<le> sum_list (map unat ws)"
proof (induction ws)
  case Nil show ?case by simp
next
  case (Cons w ws)
  have "unat (w + sum_list ws) \<le> unat w + unat (sum_list ws)"
    by (simp add: unat_word_ariths)
  with Cons show ?case by simp
qed

lemma unat_sum_list:
  "sum_list (map unat (ws :: u32 list)) < 2 ^ 32 \<Longrightarrow> unat (sum_list ws) = sum_list (map unat ws)"
proof (induction ws)
  case Nil show ?case by simp
next
  case (Cons w ws)
  then have "unat (sum_list ws) = sum_list (map unat ws)" by simp
  with Cons.prems show ?case
    by (simp add: unat_word_ariths)
qed


lemma total_nat_Nil [simp]: "total_nat [] = 0"
  by (simp add: total_nat_def)

lemma total_nat_Cons [simp]: "total_nat (p # freq) = unat (snd p) + total_nat freq"
  by (simp add: total_nat_def)

lemma cum_ranges_bounds:
  assumes "unat cumulative + total_nat freq < 2 ^ 32"
    and "p \<in> set (cum_ranges tot cumulative freq)"
  shows "unat cumulative \<le> unat (low (snd p)) \<and> unat (low (snd p)) \<le> unat (high (snd p))
    \<and> unat (high (snd p)) \<le> unat cumulative + total_nat freq"
  using assms
proof (induction freq arbitrary: cumulative)
  case Nil then show ?case by simp
next
  case (Cons q freq)
  from Cons.prems(1) have a: "unat (cumulative + snd q) = unat cumulative + unat (snd q)"
    by (simp add: unat_word_ariths)
  show ?case
  proof (cases "p = (fst q, \<lparr>low = cumulative, high = cumulative + snd q, count = tot\<rparr>)")
    case True
    then show ?thesis using a by simp
  next
    case False
    with Cons.prems(2) have "p \<in> set (cum_ranges tot (cumulative + snd q) freq)" by simp
    moreover from Cons.prems(1) a
    have "unat (cumulative + snd q) + total_nat freq < 2 ^ 32" by simp
    ultimately show ?thesis using Cons.IH[of "cumulative + snd q"] a by simp
  qed
qed

lemma cum_ranges_nonempty:
  assumes "unat cumulative + total_nat freq < 2 ^ 32"
    and "list_all (\<lambda>p. 0 < snd p) freq"
    and "p \<in> set (cum_ranges tot cumulative freq)"
  shows "low (snd p) < high (snd p)"
  using assms
proof (induction freq arbitrary: cumulative)
  case Nil then show ?case by simp
next
  case (Cons q freq)
  from Cons.prems(1) have a: "unat (cumulative + snd q) = unat cumulative + unat (snd q)"
    by (simp add: unat_word_ariths)
  show ?case
  proof (cases "p = (fst q, \<lparr>low = cumulative, high = cumulative + snd q, count = tot\<rparr>)")
    case True
    from Cons.prems(2) have "0 < unat (snd q)" by (simp add: word_less_nat_alt)
    with True a show ?thesis by (simp add: word_less_nat_alt)
  next
    case False
    with Cons.prems(3) have "p \<in> set (cum_ranges tot (cumulative + snd q) freq)" by simp
    moreover from Cons.prems(1) a
    have "unat (cumulative + snd q) + total_nat freq < 2 ^ 32" by simp
    ultimately show ?thesis using Cons.IH[of "cumulative + snd q"] Cons.prems(2) by simp
  qed
qed

lemma cum_ranges_unique:
  assumes "unat cumulative + total_nat freq < 2 ^ 32"
    and "p \<in> set (cum_ranges tot cumulative freq)" "in_range v (snd p)"
    and "q \<in> set (cum_ranges tot cumulative freq)" "in_range v (snd q)"
  shows "p = q"
  using assms
proof (induction freq arbitrary: cumulative)
  case Nil then show ?case by simp
next
  case (Cons e freq)
  let ?h = "(fst e, \<lparr>low = cumulative, high = cumulative + snd e, count = tot\<rparr>)"
  let ?c = "cumulative + snd e"
  from Cons.prems(1) have a: "unat ?c = unat cumulative + unat (snd e)"
    by (simp add: unat_word_ariths)
  with Cons.prems(1) have o: "unat ?c + total_nat freq < 2 ^ 32" by simp
  have later: False if "x \<in> set (cum_ranges tot ?c freq)" "in_range v (snd x)" "in_range v (snd ?h)" for x
  proof -
    from cum_ranges_bounds[OF o that(1)] have "unat ?c \<le> unat (low (snd x))" by simp
    with that(2,3) show False by (simp add: in_range_def word_le_nat_alt word_less_nat_alt)
  qed
  from Cons.prems(2) have p: "p = ?h \<or> p \<in> set (cum_ranges tot ?c freq)" by simp
  from Cons.prems(4) have q: "q = ?h \<or> q \<in> set (cum_ranges tot ?c freq)" by simp
  from p q show ?case
    using later Cons.prems(3,5) Cons.IH[OF o] by blast
qed

lemma cum_ranges_find:
  assumes "unat cumulative + total_nat freq < 2 ^ 32"
    and "unat cumulative \<le> unat v"
    and "unat v < unat cumulative + total_nat freq"
  shows "\<exists>r. (find_symbol (cum_ranges tot cumulative freq) v, r) \<in> set (cum_ranges tot cumulative freq)
           \<and> in_range v r"
  using assms
proof (induction freq arbitrary: cumulative)
  case Nil then show ?case by simp
next
  case (Cons e freq)
  let ?r = "\<lparr>low = cumulative, high = cumulative + snd e, count = tot\<rparr>"
  let ?c = "cumulative + snd e"
  from Cons.prems(1) have a: "unat ?c = unat cumulative + unat (snd e)"
    by (simp add: unat_word_ariths)
  with Cons.prems(1) have o: "unat ?c + total_nat freq < 2 ^ 32" by simp
  show ?case
  proof (cases "v < ?c")
    case True
    with Cons.prems(2) have "in_range v ?r" by (simp add: in_range_def word_le_nat_alt)
    moreover from True Cons.prems(2)
    have "find_symbol (cum_ranges tot cumulative (e # freq)) v = fst e"
      by (simp add: word_le_nat_alt)
    ultimately show ?thesis by auto
  next
    case False
    then have f: "find_symbol (cum_ranges tot cumulative (e # freq)) v =
        find_symbol (cum_ranges tot ?c freq) v" by simp
    from False have "unat ?c \<le> unat v" by (simp add: word_less_nat_alt)
    moreover from Cons.prems(3) a have "unat v < unat ?c + total_nat freq"
      by simp
    ultimately obtain r where "(find_symbol (cum_ranges tot ?c freq) v, r) \<in> set (cum_ranges tot ?c freq)"
      "in_range v r" using Cons.IH[OF o] by blast
    then show ?thesis unfolding f by auto
  qed
qed

lemma cum_ranges_adjacent:
  "Suc i < length (cum_ranges tot cumulative freq) \<Longrightarrow>
   high (snd (cum_ranges tot cumulative freq ! i)) = low (snd (cum_ranges tot cumulative freq ! Suc i))"
proof (induction freq arbitrary: cumulative i)
  case Nil then show ?case by simp
next
  case (Cons e freq)
  show ?case
  proof (cases i)
    case 0
    with Cons.prems obtain e' freq' where "freq = e' # freq'" by (cases freq) auto
    with 0 show ?thesis by simp
  next
    case (Suc j)
    with Cons show ?thesis by simp
  qed
qed

lemma cum_ranges_first:
  "freq \<noteq> [] \<Longrightarrow> low (snd (hd (cum_ranges tot cumulative freq))) = cumulative"
  by (cases freq) auto

lemma cum_ranges_last:
  "freq \<noteq> [] \<Longrightarrow>
   high (snd (last (cum_ranges tot cumulative freq))) = cumulative + sum_list (map snd freq)"
proof (induction freq arbitrary: cumulative)
  case Nil then show ?case by simp
next
  case (Cons e freq)
  show ?case
  proof (cases freq)
    case Nil then show ?thesis by simp
  next
    case (Cons e' freq')
    then have "freq \<noteq> []" by simp
    from Cons.IH[OF this, of "cumulative + snd e"] Cons show ?thesis
      by (simp add: add.assoc)
  qed
qed

lemma distinct_bytes_length: "distinct (ks :: byte list) \<Longrightarrow> length ks \<le> 256"
proof -
  assume d: "distinct ks"
  have "card (set ks) \<le> card (UNIV :: byte set)"
    by (rule card_mono) auto
  with d show ?thesis by (simp add: distinct_card card_word)
qed

lemma total_nat_bounded:
  "list_all (\<lambda>p. unat (snd p) \<le> b) freq \<Longrightarrow> total_nat freq \<le> length freq * b"
  by (induction freq) auto

lemma freq_table_sum:
  assumes "freq_table sg freq"
  shows "total_nat freq \<le> 256 * 16383"
proof -
  from assms have "sorted_wrt (char_less sg) (map fst freq)"
    by (simp add: freq_table_def)
  then have "distinct (map fst freq)"
    by (rule sorted_char_less_distinct)
  then have l: "length freq \<le> 256" using distinct_bytes_length[of "map fst freq"] by simp
  from assms have "list_all (\<lambda>p. unat (snd p) \<le> 16383) freq"
    by (auto simp: freq_table_def list_all_iff MAX_FREQ_def word_le_nat_alt)
  from total_nat_bounded[OF this] l show ?thesis
    by (meson le_trans mult_le_mono1)
qed

lemma freq_table_unat_total:
  assumes "freq_table sg freq"
  shows "unat (sum_counts freq) = total_nat freq"
proof -
  from freq_table_sum[OF assms] have "sum_list (map unat (map snd freq)) < 2 ^ 32"
    by (simp add: total_nat_def comp_def)
  from unat_sum_list[OF this] show ?thesis
    by (simp add: sum_counts_sum_list total_nat_def comp_def)
qed


lemma freq_table_calculateFrequencies: "freq_table sg (calculateFrequencies sg ws)"
proof -
  have "0 < snd p \<and> snd p \<le> MAX_FREQ" if "p \<in> set (calculateFrequencies sg ws)" for p
  proof -
    obtain c v where p: "p = (c, v)" by (cases p)
    from calculateFrequencies_entry[OF that[unfolded p]]
    have c: "c \<in> set ws" and v: "v = word_of_nat (min (count_list ws c) 16383)" by auto
    have "unat v = min (count_list ws c) 16383"
      unfolding v by (simp add: unat_of_nat min_def)
    with count_list_pos[OF c] p show ?thesis
      by (simp add: MAX_FREQ_def word_le_nat_alt word_less_nat_alt)
  qed
  then show ?thesis
    by (simp add: freq_table_def sorted_calculateFrequencies list_all_iff)
qed

section \<open>The table in the container\<close>


lemma read_freq_write_freq:
  "sorted_wrt (char_less sg) (map fst acc @ map fst freq) \<Longrightarrow>
   read_freq sg (length freq) (write_freq freq @ rest) acc = Inr (acc @ freq, rest)"
proof (induction freq arbitrary: acc)
  case Nil show ?case by (simp add: write_freq_def)
next
  case (Cons p freq)
  from Cons.prems have "\<forall>x \<in> fst ` set acc. char_less sg x (fst p)"
    by (auto simp: sorted_wrt_append)
  then have mp: "map_put sg (fst p) (snd p) acc = acc @ [p]"
    using map_put_append[of acc sg "fst p" "snd p"] by simp
  from Cons.prems have s: "sorted_wrt (char_less sg) (map fst (acc @ [p]) @ map fst freq)"
    by (auto simp: sorted_wrt_append)
  have w: "write_freq (p # freq) @ rest = fst p # le32 (snd p) @ write_freq freq @ rest"
    by (simp add: write_freq_def)
  show ?case
    unfolding w using Cons.IH[OF s]
    by (simp add: le32_def from_le32_le32 mp)
qed

lemma sorted_read_freq:
  "sorted_wrt (char_less sg) (map fst acc) \<Longrightarrow> read_freq sg n inp acc = Inr (freq, rest) \<Longrightarrow>
   sorted_wrt (char_less sg) (map fst freq)"
proof (induction n arbitrary: inp acc)
  case 0 then show ?case by simp
next
  case (Suc n)
  from Suc.prems(2) obtain c b0 b1 b2 b3 inp' where
    inp: "inp = c # b0 # b1 # b2 # b3 # inp'"
    by (auto split: list.splits)
  with Suc.prems(2) have "read_freq sg n inp' (map_put sg c (from_le32 b0 b1 b2 b3) acc) = Inr (freq, rest)"
    by simp
  moreover have "sorted_wrt (char_less sg) (map fst (map_put sg c (from_le32 b0 b1 b2 b3) acc))"
    by (rule sorted_map_put[OF Suc.prems(1)])
  ultimately show ?case by (rule Suc.IH[rotated])
qed





lemma find_symbol_unmatched:
  "\<forall>p \<in> set ranges. \<not> in_range v (snd p) \<Longrightarrow> find_symbol ranges v = 0"
  by (induction ranges) (auto simp: in_range_def)

section \<open>The interval under narrowing and renormalisation\<close>

lemma consts_val:
  "TOP = 65535" "FIRST_QTR = 16384" "HALF = 32768" "THIRD_QTR = 49152"
  by (simp_all add: TOP_def FIRST_QTR_def HALF_def THIRD_QTR_def)

lemma shl1_mult: "push_bit 1 (x :: u32) = 2 * x"
  by (simp add: push_bit_eq_mult)

lemma shl1_or1: "push_bit 1 (x :: u32) OR 1 = 2 * x + 1"
  by (simp add: push_bit_eq_mult or_one_eq)

lemma unat_double: "unat (x :: u32) < 2 ^ 31 \<Longrightarrow> unat (2 * x) = 2 * unat x"
  by (simp add: unat_word_ariths)

lemma unat_double1: "unat (x :: u32) < 2 ^ 31 \<Longrightarrow> unat (2 * x + 1) = 2 * unat x + 1"
  by (simp add: unat_word_ariths)

lemma shift_interval_unat:
  assumes "off \<le> fst lh" and "fst lh \<le> snd lh" and "unat (snd lh) < 2 ^ 31"
  shows "unat (fst (shift_interval off lh)) = 2 * (unat (fst lh) - unat off)"
    and "unat (snd (shift_interval off lh)) = 2 * (unat (snd lh) - unat off) + 1"
proof -
  from assms have o: "off \<le> snd lh" by simp
  have l: "unat (fst lh - off) = unat (fst lh) - unat off"
    by (rule unat_sub[OF assms(1)])
  have h: "unat (snd lh - off) = unat (snd lh) - unat off"
    by (rule unat_sub[OF o])
  from assms(2,3) have "unat (fst lh) < 2 ^ 31" by (simp add: word_le_nat_alt)
  with l have l31: "unat (fst lh - off) < 2 ^ 31" by simp
  from assms(3) h have h31: "unat (snd lh - off) < 2 ^ 31" by simp
  show "unat (fst (shift_interval off lh)) = 2 * (unat (fst lh) - unat off)"
    by (simp only: shift_interval_def fst_conv shl1_mult unat_double[OF l31] l)
  show "unat (snd (shift_interval off lh)) = 2 * (unat (snd lh) - unat off) + 1"
    by (simp only: shift_interval_def snd_conv shl1_or1 unat_double1[OF h31] h)
qed

lemma renorm_case_cases:
  assumes "renorm_case lh = Some off"
  obtains (E1) "off = 0" "unat (snd lh) < 32768"
  | (E2) "off = HALF" "32768 \<le> unat (snd lh)" "32768 \<le> unat (fst lh)"
  | (E3) "off = FIRST_QTR" "32768 \<le> unat (snd lh)" "unat (fst lh) < 32768"
      "16384 \<le> unat (fst lh)" "unat (snd lh) < 49152"
  using assms
  by (auto simp: renorm_case_def consts_val word_less_nat_alt word_le_nat_alt split: if_splits)

lemma renorm_case_None:
  assumes "renorm_case lh = None"
  shows "32768 \<le> unat (snd lh) \<and> unat (fst lh) < 32768
    \<and> (unat (fst lh) < 16384 \<or> 49152 \<le> unat (snd lh))"
  using assms
  by (auto simp: renorm_case_def consts_val word_less_nat_alt word_le_nat_alt split: if_splits)

lemma interval_ok_unat: "interval_ok lh \<longleftrightarrow> unat (fst lh) \<le> unat (snd lh) \<and> unat (snd lh) \<le> 65535"
  by (simp add: interval_ok_def consts_val word_le_nat_alt)

lemma shift_interval_ok:
  assumes "interval_ok lh" and "renorm_case lh = Some off"
  shows "interval_ok (shift_interval off lh)"
    and "fst (shift_interval off lh) < snd (shift_interval off lh)"
    and "unat (snd (shift_interval off lh)) - unat (fst (shift_interval off lh)) =
         2 * (unat (snd lh) - unat (fst lh)) + 1"
proof -
  from assms(1) have lh: "unat (fst lh) \<le> unat (snd lh)" "unat (snd lh) \<le> 65535"
    by (simp_all add: interval_ok_unat)
  then have le: "fst lh \<le> snd lh" and h31: "unat (snd lh) < 2 ^ 31"
    by (simp_all add: word_le_nat_alt)
  have off: "off \<le> fst lh \<and> unat off \<le> unat (fst lh) \<and> 2 * (unat (snd lh) - unat off) + 1 \<le> 65535"
    using assms(2) lh
    by (cases rule: renorm_case_cases) (auto simp: consts_val word_le_nat_alt)
  then have o: "off \<le> fst lh" by simp
  note u = shift_interval_unat[OF o le h31]
  show "interval_ok (shift_interval off lh)"
    unfolding interval_ok_unat u using off lh by simp
  show "fst (shift_interval off lh) < snd (shift_interval off lh)"
    unfolding word_less_nat_alt u using off lh by simp
  show "unat (snd (shift_interval off lh)) - unat (fst (shift_interval off lh)) =
         2 * (unat (snd lh) - unat (fst lh)) + 1"
    unfolding u using off lh by arith
qed

lemma settled_wide:
  assumes "interval_ok lh" and "renorm_case lh = None"
  shows "wide lh"
  using renorm_case_None[OF assms(2)] assms(1)
  by (auto simp: wide_def)


lemma unat_add_exact: "unat (x :: u32) + unat y < 2 ^ 32 \<Longrightarrow> unat (x + y) = unat x + unat y"
  using unat_add_lem[of x y] by simp

lemma unat_mult_exact: "unat (x :: u32) * unat y < 2 ^ 32 \<Longrightarrow> unat (x * y) = unat x * unat y"
  using unat_mult_lem[of x y] by simp

lemma interval_ok_range:
  assumes "interval_ok lh"
  shows "range_of lh = unat (snd lh) - unat (fst lh) + 1" and "bounded lh" and "0 < range_of lh"
proof -
  from assms have lh: "unat (fst lh) \<le> unat (snd lh)" "unat (snd lh) \<le> 65535"
    by (simp_all add: interval_ok_unat)
  then have le: "fst lh \<le> snd lh" by (simp add: word_le_nat_alt)
  have d: "unat (snd lh - fst lh) = unat (snd lh) - unat (fst lh)"
    by (rule unat_sub[OF le])
  have "unat (snd lh - fst lh) + unat (1 :: u32) < 2 ^ LENGTH(32)"
    using d lh by simp
  then have "unat (snd lh - fst lh + 1) = unat (snd lh - fst lh) + unat (1 :: u32)"
    by (simp only: unat_add_lem)
  then show r: "range_of lh = unat (snd lh) - unat (fst lh) + 1"
    by (simp add: range_of_def d)
  show "bounded lh" unfolding bounded_def r using lh by simp
  show "0 < range_of lh" unfolding r by simp
qed

lemma bounded_pos_ok:
  assumes "bounded lh" and "0 < range_of lh"
  shows "interval_ok lh"
proof -
  define l where "l = unat (fst lh)"
  define R where "R = range_of lh"
  define x where "x = fst lh + (snd lh - fst lh + 1)"
  from assms have b: "l + R \<le> 65536" "0 < R" by (simp_all add: bounded_def l_def R_def)
  have h: "snd lh = x - 1" by (simp add: x_def)
  have "unat (fst lh) + unat (snd lh - fst lh + 1) < 2 ^ LENGTH(32)"
    using b by (simp add: l_def R_def range_of_def)
  then have s: "unat x = l + R"
    unfolding x_def by (simp only: unat_add_lem l_def R_def range_of_def)
  have "1 \<le> x"
    using s b by (simp add: word_le_nat_alt)
  then have "unat (x - 1) = unat x - unat (1 :: u32)"
    by (rule unat_sub)
  with h s have "unat (snd lh) = l + R - 1" by simp
  with b show ?thesis unfolding interval_ok_unat l_def by arith
qed

lemma div_mono_sum:
  fixes T :: nat
  assumes "0 < T"
  shows "x div T + y div T \<le> (x + y) div T"
proof -
  have "(x div T + y div T) * T \<le> x + y"
    by (simp add: add_mult_distrib add_mono)
  then show ?thesis
    using assms by (simp add: less_eq_div_iff_mult_less_eq)
qed

lemma narrow_bounded:
  assumes b: "bounded lh"
    and r: "unat (low r) \<le> unat (high r)" "unat (high r) \<le> unat (count r)"
      "0 < unat (count r)" "unat (count r) < 65536"
  shows "range_of lh * unat (low r) < 2 ^ 32" and "range_of lh * unat (high r) < 2 ^ 32"
    and "\<exists>lh'. narrow r lh = Inr lh' \<and> bounded lh'
          \<and> unat (fst lh') = unat (fst lh) + (range_of lh * unat (low r)) div unat (count r)
          \<and> range_of lh' = (range_of lh * unat (high r)) div unat (count r)
                            - (range_of lh * unat (low r)) div unat (count r)
          \<and> unat (fst lh') + range_of lh' \<le> unat (fst lh) + range_of lh"
proof -
  define l where "l = unat (fst lh)"
  define R where "R = range_of lh"
  define T where "T = unat (count r)"
  define a where "a = (R * unat (low r)) div T"
  define c where "c = (R * unat (high r)) div T"
  let ?rng = "snd lh - fst lh + 1"
  from b have lR: "l + R \<le> 65536" by (simp add: bounded_def l_def R_def)
  then have R: "R \<le> 65536" by simp
  from r have sl: "unat (low r) \<le> 65535" and sh: "unat (high r) \<le> 65535"
    and slh: "unat (low r) \<le> unat (high r)" and shT: "unat (high r) \<le> T" and T: "0 < T"
    by (simp_all add: T_def)
  have "R * unat (low r) \<le> 65536 * 65535" using R sl by (rule mult_le_mono)
  then show pl: "range_of lh * unat (low r) < 2 ^ 32" by (simp add: R_def)
  have "R * unat (high r) \<le> 65536 * 65535" using R sh by (rule mult_le_mono)
  then show ph: "range_of lh * unat (high r) < 2 ^ 32" by (simp add: R_def)
  have ml: "unat (?rng * low r) = R * unat (low r)"
    unfolding R_def range_of_def by (rule unat_mult_exact) (use pl in \<open>simp add: range_of_def\<close>)
  have mh: "unat (?rng * high r) = R * unat (high r)"
    unfolding R_def range_of_def by (rule unat_mult_exact) (use ph in \<open>simp add: range_of_def\<close>)
  have ua: "unat ((?rng * low r) div count r) = a"
    by (simp add: unat_div ml a_def T_def)
  have uc: "unat ((?rng * high r) div count r) = c"
    by (simp add: unat_div mh c_def T_def)
  have ac: "a \<le> c"
    unfolding a_def c_def using slh by (simp add: div_le_mono)
  have "R * unat (high r) \<le> R * T" using shT by simp
  then have "c \<le> (R * T) div T" unfolding c_def by (rule div_le_mono)
  then have cR: "c \<le> R" using T by simp
  define A where "A = (?rng * low r) div count r"
  define C where "C = (?rng * high r) div count r"
  let ?lo = "fst lh + A"
  let ?hi = "fst lh + C - 1"
  note ua = ua[folded A_def] and uc = uc[folded C_def]
  have n: "narrow r lh = Inr (?lo, ?hi)"
    using T by (simp add: narrow_def Let_def T_def unat_gt_0 A_def C_def)
  have "unat (fst lh) + unat A < 2 ^ 32"
    using lR ac cR by (simp add: ua l_def)
  then have "unat ?lo = unat (fst lh) + unat A"
    by (rule unat_add_exact)
  then have ulo: "unat ?lo = l + a"
    by (simp only: ua l_def)
  have AC: "A \<le> C" using ac by (simp add: word_le_nat_alt ua uc)
  have "?hi - ?lo + 1 = C - A" by simp
  then have rg: "range_of (?lo, ?hi) = c - a"
    by (simp add: range_of_def unat_sub[OF AC] ua uc)
  have bd: "bounded (?lo, ?hi)"
    unfolding bounded_def rg fst_conv using ulo lR ac cR by simp
  show "\<exists>lh'. narrow r lh = Inr lh' \<and> bounded lh'
          \<and> unat (fst lh') = unat (fst lh) + (range_of lh * unat (low r)) div unat (count r)
          \<and> range_of lh' = (range_of lh * unat (high r)) div unat (count r)
                            - (range_of lh * unat (low r)) div unat (count r)
          \<and> unat (fst lh') + range_of lh' \<le> unat (fst lh) + range_of lh"
    using n bd ulo rg ac cR
    by (auto simp: l_def R_def T_def a_def c_def)
qed


lemma narrow_wide:
  assumes w: "wide lh"
    and r: "unat (low r) < unat (high r)" "unat (high r) \<le> unat (count r)"
      "unat (count r) \<le> 16384"
  shows "\<exists>lh'. narrow r lh = Inr lh' \<and> interval_ok lh'
          \<and> unat (fst lh') = unat (fst lh)
                + ((unat (snd lh) - unat (fst lh) + 1) * unat (low r)) div unat (count r)
          \<and> unat (snd lh') = unat (fst lh)
                + ((unat (snd lh) - unat (fst lh) + 1) * unat (high r)) div unat (count r) - 1
          \<and> unat (snd lh') \<le> unat (snd lh)
          \<and> (unat (count r) \<le> 8192 \<longrightarrow> fst lh' < snd lh')"
proof -
  define T where "T = unat (count r)"
  define R where "R = range_of lh"
  define a where "a = (R * unat (low r)) div T"
  define c where "c = (R * unat (high r)) div T"
  from w have ok: "interval_ok lh" and wd: "unat (fst lh) + 16385 \<le> unat (snd lh)"
    by (simp_all add: wide_def)
  note rg = interval_ok_range[OF ok]
  from rg(1) wd have R: "16386 \<le> R" by (simp add: R_def)
  from r have T: "0 < T" "T \<le> 16384" by (simp_all add: T_def)
  from r have r': "unat (low r) \<le> unat (high r)" "0 < unat (count r)" "unat (count r) < 65536"
    by simp_all
  from narrow_bounded(3)[OF rg(2) r'(1) r(2) r'(2,3)]
  obtain lh' where n: "narrow r lh = Inr lh'" and b: "bounded lh'"
    and ul: "unat (fst lh') = unat (fst lh) + a"
    and ur: "range_of lh' = c - a"
    and le: "unat (fst lh') + range_of lh' \<le> unat (fst lh) + R"
    by (auto simp: a_def c_def R_def T_def)
  have "R * unat (low r) + R * (unat (high r) - unat (low r)) = R * unat (high r)"
    using r(1) by (simp add: diff_mult_distrib2 mult_le_mono2)
  then have "a + (R * (unat (high r) - unat (low r))) div T \<le> c"
    using div_mono_sum[OF T(1), of "R * unat (low r)" "R * (unat (high r) - unat (low r))"]
    by (simp add: a_def c_def)
  moreover have "R div T \<le> (R * (unat (high r) - unat (low r))) div T"
  proof -
    have "1 \<le> unat (high r) - unat (low r)" using r(1) by arith
    then have "R * 1 \<le> R * (unat (high r) - unat (low r))" by (rule mult_le_mono2)
    then show ?thesis by (intro div_le_mono) simp
  qed
  ultimately have ca: "a + R div T \<le> c" by simp
  have "1 * T \<le> R" using T R by simp
  then have d1: "1 \<le> R div T" using T(1) by (simp only: less_eq_div_iff_mult_less_eq)
  with ca ur have pos: "0 < range_of lh'" by simp
  have ok': "interval_ok lh'" by (rule bounded_pos_ok[OF b pos])
  note rg' = interval_ok_range[OF ok']
  from ok' have hl: "unat (fst lh') \<le> unat (snd lh')" by (simp add: interval_ok_unat)
  from rg'(1) ur hl have uh: "unat (snd lh') = unat (fst lh') + (c - a) - 1" by simp
  with ul ca d1 have uh': "unat (snd lh') = unat (fst lh) + c - 1" by simp
  from le rg'(1) rg(1) hl have hh: "unat (snd lh') \<le> unat (snd lh)"
    using ok by (simp add: R_def interval_ok_unat)
  have strict: "fst lh' < snd lh'" if "T \<le> 8192"
  proof -
    have "2 * T \<le> R" using that R by simp
    then have "2 \<le> R div T" using T(1) by (simp only: less_eq_div_iff_mult_less_eq)
    with ca have "a + 2 \<le> c" by simp
    with uh show ?thesis by (simp add: word_less_nat_alt)
  qed
  show ?thesis
    using n ok' ul uh' hh strict rg(1)
    by (auto simp: a_def c_def R_def T_def)
qed

lemma shift_bounded:
  assumes b: "bounded lh" and c: "renorm_case lh = Some off"
  shows "bounded (shift_interval off lh)"
proof (cases "0 < range_of lh")
  case True
  have "interval_ok lh" by (rule bounded_pos_ok[OF b True])
  from shift_interval_ok(1)[OF this c] show ?thesis
    by (rule interval_ok_range(2))
next
  case False
  then have z: "snd lh - fst lh + 1 = 0" by (simp add: range_of_def unat_eq_0)
  then have h: "snd lh = fst lh - 1" by (simp add: eq_neg_iff_add_eq_0 algebra_simps)
  define l where "l = unat (fst lh)"
  from b False have l: "l \<le> 65536" by (simp add: bounded_def l_def)
  have r': "snd (shift_interval off lh) - fst (shift_interval off lh) + 1 = 0"
    unfolding shift_interval_def fst_conv snd_conv shl1_or1
    unfolding shl1_mult h
    by (simp add: algebra_simps)
  have offl: "off \<le> fst lh \<and> 2 * (l - unat off) \<le> 65536"
    using c
  proof (cases rule: renorm_case_cases)
    case E1
    have "fst lh \<noteq> 0"
    proof
      assume "fst lh = 0"
      with h have "snd lh = - 1" by simp
      with E1(2) show False by (simp add: unsigned_minus_1_eq_mask mask_eq_exp_minus_1)
    qed
    then have "1 \<le> fst lh" by (simp add: word_le_nat_alt unat_gt_0 Suc_le_eq)
    then have "unat (snd lh) = l - 1" unfolding h l_def by (simp add: unat_sub)
    with E1 show ?thesis unfolding l_def by simp
  next
    case E2
    with l show ?thesis by (simp add: consts_val word_le_nat_alt l_def)
  next
    case E3
    with l show ?thesis by (simp add: consts_val word_le_nat_alt l_def)
  qed
  then have o: "off \<le> fst lh" by simp
  have "unat (fst lh - off) = l - unat off" unfolding l_def by (rule unat_sub[OF o])
  moreover from l have "l - unat off < 2 ^ 31" by simp
  ultimately have "unat (2 * (fst lh - off)) = 2 * (l - unat off)"
    using unat_double[of "fst lh - off"] by simp
  then have "unat (fst (shift_interval off lh)) = 2 * (l - unat off)"
    by (simp only: shift_interval_def fst_conv shl1_mult)
  with offl r' show ?thesis
    by (simp add: bounded_def range_of_def)
qed

lemma enc_renorm_step_Some:
  assumes "enc_renorm_step s = Some s'"
  shows "\<exists>off. renorm_case (enc_low s, enc_high s) = Some off
          \<and> (enc_low s', enc_high s') = shift_interval off (enc_low s, enc_high s)"
  using assms
  by (auto simp: enc_renorm_step_def renorm_case_def shift_interval_def split: if_splits)

lemma enc_renorm_step_None:
  "enc_renorm_step s = None \<longleftrightarrow> renorm_case (enc_low s, enc_high s) = None"
  by (auto simp: enc_renorm_step_def renorm_case_def)

lemma dec_renorm_step_Some:
  assumes "dec_renorm_step bits s = Some s'"
  shows "\<exists>off. renorm_case (dec_low s, dec_high s) = Some off
          \<and> (dec_low s', dec_high s') = shift_interval off (dec_low s, dec_high s)"
  using assms
  by (auto simp: dec_renorm_step_def renorm_case_def shift_interval_def next_bit_def
      split: if_splits)

lemma dec_renorm_step_None:
  "dec_renorm_step bits s = None \<longleftrightarrow> renorm_case (dec_low s, dec_high s) = None"
  by (auto simp: dec_renorm_step_def renorm_case_def)

section \<open>Runs of the encoder\<close>

lemma sorted_unat_total:
  assumes "total_nat freq < 2 ^ 32"
  shows "unat (sum_counts freq) = total_nat freq"
proof -
  from assms have "sum_list (map unat (map snd freq)) < 2 ^ 32"
    by (simp add: total_nat_def comp_def)
  from unat_sum_list[OF this] show ?thesis
    by (simp add: sum_counts_sum_list total_nat_def comp_def)
qed

lemma table_ranges:
  assumes s: "sorted_wrt (char_less sg) (map fst freq)" and t: "total_nat freq < 2 ^ 32"
    and p: "p \<in> set (fst (buildCumulativeFreq sg freq))"
  shows "map_of (fst (buildCumulativeFreq sg freq)) (fst p) = Some (snd p)"
    and "unat (low (snd p)) \<le> unat (high (snd p))"
    and "unat (high (snd p)) \<le> total_nat freq"
    and "unat (count (snd p)) = total_nat freq"
    and "count (snd p) = snd (buildCumulativeFreq sg freq)"
proof -
  let ?rs = "cum_ranges (sum_counts freq) 0 freq"
  have b: "buildCumulativeFreq sg freq = (?rs, sum_counts freq)"
    by (rule buildCumulativeFreq_sorted[OF s])
  from p have p': "p \<in> set ?rs" by (simp add: b)
  have "distinct (map fst ?rs)"
    unfolding keys_cum_ranges by (rule sorted_char_less_distinct[OF s])
  with p' have "map_of ?rs (fst p) = Some (snd p)" by simp
  then show "map_of (fst (buildCumulativeFreq sg freq)) (fst p) = Some (snd p)" by (simp add: b)
  have o: "unat (0 :: u32) + total_nat freq < 2 ^ 32" using t by simp
  from cum_ranges_bounds[OF o p']
  show "unat (low (snd p)) \<le> unat (high (snd p))" and "unat (high (snd p)) \<le> total_nat freq"
    by simp_all
  from count_cum_ranges[OF p'] sorted_unat_total[OF t]
  show "unat (count (snd p)) = total_nat freq" and "count (snd p) = snd (buildCumulativeFreq sg freq)"
    by (simp_all add: b)
qed

lemma freq_table_ranges:
  assumes f: "freq_table sg freq" and c: "c \<in> fst ` set freq"
  shows "\<exists>r. map_of (fst (buildCumulativeFreq sg freq)) c = Some r
          \<and> unat (low r) < unat (high r) \<and> unat (high r) \<le> unat (count r)
          \<and> unat (count r) = total_nat freq"
proof -
  let ?rs = "cum_ranges (sum_counts freq) 0 freq"
  from f have s: "sorted_wrt (char_less sg) (map fst freq)"
    and pos: "list_all (\<lambda>p. 0 < snd p) freq"
    by (auto simp: freq_table_def list_all_iff)
  have b: "buildCumulativeFreq sg freq = (?rs, sum_counts freq)"
    by (rule buildCumulativeFreq_sorted[OF s])
  have t: "total_nat freq < 2 ^ 32" using freq_table_sum[OF f] by simp
  from c have "c \<in> set (map fst ?rs)" by (simp add: keys_cum_ranges)
  then obtain p where p: "p \<in> set ?rs" "fst p = c" by auto
  then have p': "p \<in> set (fst (buildCumulativeFreq sg freq))" by (simp add: b)
  have o: "unat (0 :: u32) + total_nat freq < 2 ^ 32" using t by simp
  from cum_ranges_nonempty[OF o pos p(1)] have "unat (low (snd p)) < unat (high (snd p))"
    by (simp add: word_less_nat_alt)
  with table_ranges[OF s t p'] p(2) show ?thesis by auto
qed

lemma text_ranges:
  assumes "c \<in> set ws"
  shows "\<exists>r. map_of (fst (buildCumulativeFreq sg (calculateFrequencies sg ws))) c = Some r
          \<and> unat (low r) < unat (high r) \<and> unat (high r) \<le> unat (count r)
          \<and> unat (count r) = total_nat (calculateFrequencies sg ws)"
  using freq_table_ranges[OF freq_table_calculateFrequencies, of c sg ws] assms
  by (simp add: keys_calculateFrequencies)

lemma enc_narrow_interval:
  assumes "map_of ranges c = Some r"
  shows "enc_narrow ranges c s =
     (case narrow r (enc_low s, enc_high s) of
        Inl f \<Rightarrow> Inl f
      | Inr lh \<Rightarrow> Inr (s\<lparr>enc_low := fst lh, enc_high := snd lh\<rparr>))"
  using assms by (simp add: enc_narrow_def map_get_def)

lemma enc_run_invariant:
  assumes rs: "\<And>c. c \<in> set ws \<Longrightarrow> \<exists>r. map_of ranges c = Some r
      \<and> unat (low r) < unat (high r) \<and> unat (high r) \<le> unat (count r) \<and> unat (count r) \<le> T"
    and T: "T \<le> 16384"
    and run: "enc_run ranges ws cf"
  shows "set (fst cf) \<subseteq> set ws
    \<and> interval_ok (enc_low (snd (snd cf)), enc_high (snd (snd cf)))
    \<and> (fst (snd cf) = AtSymbol \<longrightarrow> wide (enc_low (snd (snd cf)), enc_high (snd (snd cf))))
    \<and> (T \<le> 8192 \<longrightarrow> enc_low (snd (snd cf)) < enc_high (snd (snd cf)))"
  using run
proof (induction rule: enc_run.induct)
  case enc_start
  show ?case
    by (simp add: enc_init_def interval_ok_def wide_def consts_val)
next
  case (enc_narrowed c cs s s')
  then have c: "c \<in> set ws" and w: "wide (enc_low s, enc_high s)" by auto
  from rs[OF c] obtain r where r: "map_of ranges c = Some r"
    "unat (low r) < unat (high r)" "unat (high r) \<le> unat (count r)" "unat (count r) \<le> T"
    by blast
  from r(4) T have "unat (count r) \<le> 16384" by simp
  from narrow_wide[OF w r(2,3) this] obtain lh' where
    n: "narrow r (enc_low s, enc_high s) = Inr lh'" and ok: "interval_ok lh'"
    and st: "unat (count r) \<le> 8192 \<longrightarrow> fst lh' < snd lh'" by blast
  from enc_narrowed.hyps(2) n have s': "enc_low s' = fst lh'" "enc_high s' = snd lh'"
    by (auto simp: enc_narrow_interval[OF r(1)])
  from enc_narrowed.IH ok st r(4) show ?case
    by (auto simp: s')
next
  case (enc_shifted cs s s')
  then have ok: "interval_ok (enc_low s, enc_high s)" by simp
  from enc_renorm_step_Some[OF enc_shifted.hyps(2)] obtain off where
    c: "renorm_case (enc_low s, enc_high s) = Some off"
    and e: "(enc_low s', enc_high s') = shift_interval off (enc_low s, enc_high s)" by blast
  from shift_interval_ok(1,2)[OF ok c] enc_shifted.IH show ?case
    by (simp add: e[symmetric])
next
  case (enc_settled cs s)
  then have ok: "interval_ok (enc_low s, enc_high s)" by simp
  from enc_settled.hyps(2) have "renorm_case (enc_low s, enc_high s) = None"
    by (simp add: enc_renorm_step_None)
  from settled_wide[OF ok this] enc_settled.IH show ?case by simp
qed

section \<open>Runs of the decoder\<close>

lemma double_or1: "2 * (x :: u32) OR 1 = 2 * x + 1"
  by (simp add: or_one_eq)

lemma shift_in_unat:
  "unat v < 2 ^ 31 \<Longrightarrow> unat (shift_in v b) = 2 * unat v + (if b then 1 else 0)"
proof (cases b)
  case True
  assume "unat v < 2 ^ 31"
  from unat_double1[OF this] True show ?thesis
    by (simp only: shift_in_def if_True shl1_or1)
next
  case False
  assume "unat v < 2 ^ 31"
  from unat_double[OF this] False show ?thesis
    by (simp only: shift_in_def if_False shl1_mult or.right_neutral add_0_right)
qed

lemma foldl_shift_in_bound:
  "unat v < 2 ^ k \<Longrightarrow> k + length bs \<le> 31 \<Longrightarrow> unat (foldl shift_in v bs) < 2 ^ (k + length bs)"
proof (induction bs arbitrary: v k)
  case Nil then show ?case by simp
next
  case (Cons b bs)
  from Cons.prems have k: "k < 31" by simp
  then have "(2::nat) ^ k \<le> 2 ^ 31" by (intro power_increasing) simp_all
  with Cons.prems(1) have v31: "unat v < 2 ^ 31" by simp
  have "unat (shift_in v b) < 2 ^ Suc k"
    using Cons.prems(1) by (simp add: shift_in_unat[OF v31])
  from Cons.IH[OF this] Cons.prems(2) show ?case by simp
qed

lemma dec_init_value: "unat (dec_value (dec_init bits)) < 65536"
proof -
  have "unat (foldl shift_in 0 (take 16 bits)) < 2 ^ (0 + length (take 16 bits))"
    by (rule foldl_shift_in_bound) simp_all
  also have "\<dots> \<le> 2 ^ 16" by (intro power_increasing) simp_all
  finally show ?thesis by (simp add: dec_init_def)
qed

text \<open>The decoder's value stays inside the interval.\<close>

lemma scaled_in_range:
  assumes ok: "interval_ok (dec_low s, dec_high s)"
    and v: "dec_low s \<le> dec_value s" "dec_value s \<le> dec_high s"
    and T: "0 < unat tot" "unat tot < 65536"
  shows "unat (dec_value s - dec_low s + 1) * unat tot < 2 ^ 32"
    and "unat (scaled tot s) =
          ((unat (dec_value s) - unat (dec_low s) + 1) * unat tot - 1)
            div (unat (dec_high s) - unat (dec_low s) + 1)"
    and "unat (scaled tot s) < unat tot"
proof -
  define l where "l = unat (dec_low s)"
  define h where "h = unat (dec_high s)"
  define x where "x = unat (dec_value s) - l + 1"
  define R where "R = h - l + 1"
  define X where "X = dec_value s - dec_low s + 1"
  define rng where "rng = dec_high s - dec_low s + 1"
  from ok v have b: "l \<le> unat (dec_value s)" "unat (dec_value s) \<le> h" "h \<le> 65535"
    by (simp_all add: interval_ok_unat word_le_nat_alt l_def h_def)
  have "interval_ok (dec_low s, dec_value s)"
    using b by (simp add: interval_ok_unat l_def)
  from interval_ok_range(1)[OF this] have ux: "unat X = x"
    by (simp add: range_of_def x_def l_def X_def)
  from interval_ok_range(1)[OF ok] have ur: "unat rng = R"
    by (simp add: range_of_def R_def l_def h_def rng_def)
  have xR: "x \<le> R" "0 < x" "R \<le> 65536" "0 < R" using b by (simp_all add: x_def R_def)
  have "x * unat tot \<le> 65536 * 65535"
    using xR T by (intro mult_le_mono) simp_all
  then have p: "unat X * unat tot < 2 ^ 32" by (simp add: ux)
  then show "unat (dec_value s - dec_low s + 1) * unat tot < 2 ^ 32" by (simp add: X_def)
  have m: "unat (X * tot) = x * unat tot"
    using unat_mult_exact[OF p] by (simp add: ux)
  have "0 < x * unat tot" using xR T by simp
  then have "1 \<le> X * tot" by (simp add: word_le_nat_alt m)
  then have m1: "unat (X * tot - 1) = x * unat tot - 1"
    by (simp add: unat_sub m)
  have sc: "unat (scaled tot s) = (x * unat tot - 1) div R"
    by (simp add: scaled_def unat_div m1[unfolded X_def] ur[unfolded rng_def])
  then show "unat (scaled tot s) =
          ((unat (dec_value s) - unat (dec_low s) + 1) * unat tot - 1)
            div (unat (dec_high s) - unat (dec_low s) + 1)"
    by (simp add: x_def R_def l_def h_def)
  have "x * unat tot \<le> R * unat tot" using xR by simp
  with \<open>0 < x * unat tot\<close> have "x * unat tot - 1 < R * unat tot" by arith
  then have "x * unat tot - 1 < unat tot * R" by (simp only: mult.commute)
  then show "unat (scaled tot s) < unat tot"
    using xR by (simp only: sc div_less_iff_less_mult)
qed

lemma narrow_contains_value:
  assumes ok: "interval_ok (dec_low s, dec_high s)"
    and v: "dec_low s \<le> dec_value s" "dec_value s \<le> dec_high s"
    and T: "unat (count r) < 65536"
    and r: "in_range (scaled (count r) s) r" "unat (high r) \<le> unat (count r)"
  shows "\<exists>lh'. narrow r (dec_low s, dec_high s) = Inr lh' \<and> interval_ok lh'
          \<and> fst lh' \<le> dec_value s \<and> dec_value s \<le> snd lh'
          \<and> unat (fst lh') = unat (dec_low s)
                + ((unat (dec_high s) - unat (dec_low s) + 1) * unat (low r)) div unat (count r)
          \<and> unat (snd lh') = unat (dec_low s)
                + ((unat (dec_high s) - unat (dec_low s) + 1) * unat (high r)) div unat (count r) - 1"
proof -
  define l where "l = unat (dec_low s)"
  define h where "h = unat (dec_high s)"
  define x where "x = unat (dec_value s) - l + 1"
  define R where "R = h - l + 1"
  define T where "T = unat (count r)"
  define a where "a = (R * unat (low r)) div T"
  define c where "c = (R * unat (high r)) div T"
  from ok v have b: "l \<le> unat (dec_value s)" "unat (dec_value s) \<le> h" "h \<le> 65535"
    by (simp_all add: interval_ok_unat word_le_nat_alt l_def h_def)
  from r(1) have sl: "unat (low r) \<le> unat (scaled (count r) s)"
    and sh: "unat (scaled (count r) s) < unat (high r)"
    by (simp_all add: in_range_def word_le_nat_alt word_less_nat_alt)
  with r(2) have T0: "0 < T" by (simp add: T_def)
  note sc = scaled_in_range(2)[OF ok v T0[unfolded T_def] T]
  have xR: "x \<le> R" "0 < x" "0 < R" using b by (simp_all add: x_def R_def)
  have scx: "unat (scaled (count r) s) = (x * T - 1) div R"
    using sc by (simp add: x_def R_def l_def h_def T_def)
  have xT: "0 < x * T" using xR T0 by simp
  from sl have "unat (low r) * R \<le> x * T - 1"
    using xR by (simp only: scx less_eq_div_iff_mult_less_eq)
  with xT have "unat (low r) * R < x * T" by arith
  then have "R * unat (low r) < x * T" by (simp only: mult.commute)
  then have ax: "a < x" using T0 by (simp only: a_def div_less_iff_less_mult)
  from sh have "x * T - 1 < unat (high r) * R"
    using xR by (simp only: scx div_less_iff_less_mult)
  with xT have "x * T \<le> unat (high r) * R" by arith
  then have "x * T \<le> R * unat (high r)" by (simp only: mult.commute)
  then have xc: "x \<le> c" using T0 by (simp only: c_def less_eq_div_iff_mult_less_eq)
  note rg = interval_ok_range[OF ok]
  have RR: "range_of (dec_low s, dec_high s) = R"
    using rg(1) by (simp add: R_def l_def h_def)
  from sl sh have slh: "unat (low r) \<le> unat (high r)" by simp
  from narrow_bounded(3)[OF rg(2) slh r(2) T0[unfolded T_def] T]
  obtain lh' where n: "narrow r (dec_low s, dec_high s) = Inr lh'" and bd: "bounded lh'"
    and ul: "unat (fst lh') = l + a" and ur: "range_of lh' = c - a"
    by (auto simp: RR a_def c_def T_def l_def)
  from ax xc ur have pos: "0 < range_of lh'" by simp
  have ok': "interval_ok lh'" by (rule bounded_pos_ok[OF bd pos])
  from interval_ok_range(1)[OF ok'] ok' ur have "unat (snd lh') = unat (fst lh') + (c - a) - 1"
    by (simp add: interval_ok_unat)
  with ul ax xc have uh: "unat (snd lh') = l + c - 1" by simp
  have "unat (dec_value s) = l + x - 1" using b by (simp add: x_def)
  with ul uh ax xc have "unat (fst lh') \<le> unat (dec_value s)" "unat (dec_value s) \<le> unat (snd lh')"
    by simp_all
  with n ok' ul uh show ?thesis
    by (auto simp: word_le_nat_alt a_def c_def R_def T_def l_def h_def)
qed


lemma dec_renorm_step_value:
  assumes "dec_renorm_step bits s = Some s'"
  shows "\<exists>off b. renorm_case (dec_low s, dec_high s) = Some off
          \<and> (dec_low s', dec_high s') = shift_interval off (dec_low s, dec_high s)
          \<and> dec_value s' = shift_in (dec_value s - off) b"
proof -
  have nb: "\<exists>b. dec_value (next_bit bits t) = shift_in y b
      \<and> dec_low (next_bit bits t) = dec_low t \<and> dec_high (next_bit bits t) = dec_high t"
    if "dec_value t = push_bit 1 y" for t y
  proof (cases "bit_index t < length bits")
    case True
    then have "dec_value (next_bit bits t) = shift_in y (bits ! bit_index t)"
      by (simp add: next_bit_def shift_in_def that)
    with True show ?thesis by (auto simp: next_bit_def)
  next
    case False
    then have "dec_value (next_bit bits t) = shift_in y False"
      by (simp add: next_bit_def shift_in_def that)
    with False show ?thesis by (auto simp: next_bit_def)
  qed
  from assms consider
    (E1) "dec_high s < HALF"
      "s' = next_bit bits (s\<lparr>dec_low := push_bit 1 (dec_low s),
              dec_high := push_bit 1 (dec_high s) OR 1, dec_value := push_bit 1 (dec_value s)\<rparr>)"
  | (E2) "\<not> dec_high s < HALF" "dec_low s \<ge> HALF"
      "s' = next_bit bits (s\<lparr>dec_low := push_bit 1 (dec_low s - HALF),
              dec_high := push_bit 1 (dec_high s - HALF) OR 1,
              dec_value := push_bit 1 (dec_value s - HALF)\<rparr>)"
  | (E3) "\<not> dec_high s < HALF" "\<not> dec_low s \<ge> HALF"
      "dec_low s \<ge> FIRST_QTR" "dec_high s < THIRD_QTR"
      "s' = next_bit bits (s\<lparr>dec_low := push_bit 1 (dec_low s - FIRST_QTR),
              dec_high := push_bit 1 (dec_high s - FIRST_QTR) OR 1,
              dec_value := push_bit 1 (dec_value s - FIRST_QTR)\<rparr>)"
    by (auto simp: dec_renorm_step_def split: if_splits)
  then show ?thesis
  proof cases
    case E1
    from nb[of "s\<lparr>dec_low := push_bit 1 (dec_low s),
              dec_high := push_bit 1 (dec_high s) OR 1, dec_value := push_bit 1 (dec_value s)\<rparr>"
          "dec_value s"]
    obtain b where "dec_value s' = shift_in (dec_value s) b"
      "dec_low s' = push_bit 1 (dec_low s)" "dec_high s' = push_bit 1 (dec_high s) OR 1"
      unfolding E1(2) by auto
    with E1(1) show ?thesis
      by (intro exI[of _ 0] exI[of _ b]) (simp add: renorm_case_def shift_interval_def)
  next
    case E2
    from nb[of "s\<lparr>dec_low := push_bit 1 (dec_low s - HALF),
              dec_high := push_bit 1 (dec_high s - HALF) OR 1,
              dec_value := push_bit 1 (dec_value s - HALF)\<rparr>" "dec_value s - HALF"]
    obtain b where "dec_value s' = shift_in (dec_value s - HALF) b"
      "dec_low s' = push_bit 1 (dec_low s - HALF)" "dec_high s' = push_bit 1 (dec_high s - HALF) OR 1"
      unfolding E2(3) by auto
    with E2(1,2) show ?thesis
      by (intro exI[of _ HALF] exI[of _ b]) (simp add: renorm_case_def shift_interval_def)
  next
    case E3
    from nb[of "s\<lparr>dec_low := push_bit 1 (dec_low s - FIRST_QTR),
              dec_high := push_bit 1 (dec_high s - FIRST_QTR) OR 1,
              dec_value := push_bit 1 (dec_value s - FIRST_QTR)\<rparr>" "dec_value s - FIRST_QTR"]
    obtain b where "dec_value s' = shift_in (dec_value s - FIRST_QTR) b"
      "dec_low s' = push_bit 1 (dec_low s - FIRST_QTR)"
      "dec_high s' = push_bit 1 (dec_high s - FIRST_QTR) OR 1"
      unfolding E3(5) by auto
    with E3(1-4) show ?thesis
      by (intro exI[of _ FIRST_QTR] exI[of _ b]) (simp add: renorm_case_def shift_interval_def)
  qed
qed

lemma dec_shift_contains_value:
  assumes ok: "interval_ok (dec_low s, dec_high s)"
    and v: "dec_low s \<le> dec_value s" "dec_value s \<le> dec_high s"
    and st: "dec_renorm_step bits s = Some s'"
  shows "dec_low s' \<le> dec_value s' \<and> dec_value s' \<le> dec_high s'"
proof -
  from dec_renorm_step_value[OF st] obtain off b where
    c: "renorm_case (dec_low s, dec_high s) = Some off"
    and e: "(dec_low s', dec_high s') = shift_interval off (dec_low s, dec_high s)"
    and val: "dec_value s' = shift_in (dec_value s - off) b" by blast
  from ok v have b: "unat (dec_low s) \<le> unat (dec_value s)" "unat (dec_value s) \<le> unat (dec_high s)"
    "unat (dec_high s) \<le> 65535"
    by (simp_all add: interval_ok_unat word_le_nat_alt)
  then have le: "fst (dec_low s, dec_high s) \<le> snd (dec_low s, dec_high s)"
    and h31: "unat (snd (dec_low s, dec_high s)) < 2 ^ 31"
    by (simp_all add: word_le_nat_alt)
  have off: "off \<le> dec_low s"
    using c b by (cases rule: renorm_case_cases) (auto simp: consts_val word_le_nat_alt)
  then have o: "off \<le> fst (dec_low s, dec_high s)" by simp
  note u = shift_interval_unat[OF o le h31, folded e, simplified]
  from off v(1) have ov: "off \<le> dec_value s" by simp
  have uv: "unat (dec_value s - off) = unat (dec_value s) - unat off"
    by (rule unat_sub[OF ov])
  with b have "unat (dec_value s - off) < 2 ^ 31" by simp
  from shift_in_unat[OF this, of b]
  have uv': "unat (dec_value s') = 2 * (unat (dec_value s) - unat off) + (if b then 1 else 0)"
    by (simp add: val uv)
  from off have "unat off \<le> unat (dec_low s)" by (simp add: word_le_nat_alt)
  with b show ?thesis
    unfolding word_le_nat_alt u uv' by (auto split: if_splits)
qed

lemma map_get_count:
  assumes "\<And>p. p \<in> set rs \<Longrightarrow> count (snd p) = tot"
  shows "count (map_get \<lparr>low = 0, high = 0, count = 0\<rparr> rs c) = tot
       \<or> count (map_get \<lparr>low = 0, high = 0, count = 0\<rparr> rs c) = 0"
proof (cases "map_of rs c")
  case None then show ?thesis by (simp add: map_get_def)
next
  case (Some r)
  then have "(c, r) \<in> set rs" by (rule map_of_SomeD)
  from assms[OF this] Some show ?thesis by (simp add: map_get_def)
qed

lemma dec_narrow_table:
  assumes s: "sorted_wrt (char_less sg) (map fst freq)" and t: "total_nat freq < 65536"
    and ok: "interval_ok (dec_low d, dec_high d)"
    and v: "dec_low d \<le> dec_value d" "dec_value d \<le> dec_high d"
    and n: "dec_narrow (fst (buildCumulativeFreq sg freq)) (snd (buildCumulativeFreq sg freq)) d = Inr d'"
  shows "\<exists>r. (find_symbol (fst (buildCumulativeFreq sg freq))
                (scaled (snd (buildCumulativeFreq sg freq)) d), r)
              \<in> set (fst (buildCumulativeFreq sg freq))
          \<and> in_range (scaled (count r) d) r \<and> unat (high r) \<le> unat (count r)
          \<and> unat (count r) = total_nat freq \<and> count r = snd (buildCumulativeFreq sg freq)
          \<and> narrow r (dec_low d, dec_high d) = Inr (dec_low d', dec_high d')
          \<and> dec_value d' = dec_value d"
proof -
  let ?rs = "fst (buildCumulativeFreq sg freq)"
  let ?tot = "snd (buildCumulativeFreq sg freq)"
  let ?z = "\<lparr>low = 0, high = 0, count = 0\<rparr>"
  let ?c = "find_symbol ?rs (scaled ?tot d)"
  have b: "buildCumulativeFreq sg freq = (cum_ranges (sum_counts freq) 0 freq, sum_counts freq)"
    by (rule buildCumulativeFreq_sorted[OF s])
  from t have t32: "total_nat freq < 2 ^ 32" by simp
  have ut: "unat ?tot = total_nat freq"
    using sorted_unat_total[OF t32] by (simp add: b)
  from n have nr: "narrow (map_get ?z ?rs ?c) (dec_low d, dec_high d) = Inr (dec_low d', dec_high d')"
    and vd: "dec_value d' = dec_value d"
    by (auto simp: dec_narrow_def Let_def split: if_splits sum.splits)
  then have cnz: "count (map_get ?z ?rs ?c) \<noteq> 0"
    by (auto simp: narrow_def Let_def split: if_splits)
  have "count (map_get ?z ?rs ?c) = ?tot \<or> count (map_get ?z ?rs ?c) = 0"
    by (rule map_get_count) (rule table_ranges(5)[OF s t32])
  with cnz have ct: "count (map_get ?z ?rs ?c) = ?tot" by simp
  with cnz have T0: "0 < unat ?tot" by (simp add: unat_gt_0)
  from scaled_in_range(3)[OF ok v T0] t ut
  have "unat (scaled ?tot d) < unat (0 :: u32) + total_nat freq" by simp
  from cum_ranges_find[OF _ _ this, of "sum_counts freq"] t32
  obtain r where r: "(?c, r) \<in> set ?rs" "in_range (scaled ?tot d) r"
    by (auto simp: b)
  from table_ranges[OF s t32 r(1)] have m: "map_of ?rs ?c = Some r"
    and rh: "unat (high r) \<le> total_nat freq" and rc: "unat (count r) = total_nat freq"
    and rt: "count r = ?tot" by simp_all
  from m have "map_get ?z ?rs ?c = r" by (simp add: map_get_def)
  with nr r rh rc rt vd show ?thesis by auto
qed

lemma dec_run_invariant:
  assumes s: "sorted_wrt (char_less sg) (map fst freq)" and t: "total_nat freq < 65536"
    and run: "dec_run (fst (buildCumulativeFreq sg freq)) (snd (buildCumulativeFreq sg freq)) bits n cf"
  shows "interval_ok (dec_low (snd (snd cf)), dec_high (snd (snd cf)))
    \<and> dec_low (snd (snd cf)) \<le> dec_value (snd (snd cf))
    \<and> dec_value (snd (snd cf)) \<le> dec_high (snd (snd cf))
    \<and> (fst (snd cf) = AtSymbol \<longrightarrow> wide (dec_low (snd (snd cf)), dec_high (snd (snd cf))))
    \<and> (total_nat freq \<le> 8192 \<longrightarrow> dec_low (snd (snd cf)) < dec_high (snd (snd cf)))"
  using run
proof (induction rule: dec_run.induct)
  case dec_start
  have "dec_value (dec_init bits) \<le> 65535"
    using dec_init_value[of bits] by (simp add: word_le_nat_alt)
  then show ?case
    by (simp add: dec_init_def interval_ok_def wide_def consts_val)
next
  case (dec_narrowed k d d')
  then have ok: "interval_ok (dec_low d, dec_high d)"
    and v: "dec_low d \<le> dec_value d" "dec_value d \<le> dec_high d"
    and w: "wide (dec_low d, dec_high d)" by simp_all
  from dec_narrow_table[OF s t ok v dec_narrowed.hyps(2)] obtain r where
    r: "in_range (scaled (count r) d) r" "unat (high r) \<le> unat (count r)"
       "unat (count r) = total_nat freq"
    and n: "narrow r (dec_low d, dec_high d) = Inr (dec_low d', dec_high d')"
    and vd: "dec_value d' = dec_value d" by blast
  from r(3) t have T: "unat (count r) < 65536" by simp
  from narrow_contains_value[OF ok v T r(1,2)] n
  have ok': "interval_ok (dec_low d', dec_high d')"
    and v': "dec_low d' \<le> dec_value d" "dec_value d \<le> dec_high d'" by auto
  have st: "dec_low d' < dec_high d'" if "total_nat freq \<le> 8192"
  proof -
    from r(1) have "unat (low r) < unat (high r)"
      by (simp add: in_range_def word_le_nat_alt word_less_nat_alt)
    moreover from that r(3) have "unat (count r) \<le> 16384" "unat (count r) \<le> 8192" by simp_all
    ultimately show ?thesis
      using narrow_wide[OF w _ r(2), of] n by auto
  qed
  from ok' v' vd st show ?case by simp
next
  case (dec_shifted k d d')
  then have ok: "interval_ok (dec_low d, dec_high d)"
    and v: "dec_low d \<le> dec_value d" "dec_value d \<le> dec_high d" by simp_all
  from dec_renorm_step_Some[OF dec_shifted.hyps(2)] obtain off where
    c: "renorm_case (dec_low d, dec_high d) = Some off"
    and e: "(dec_low d', dec_high d') = shift_interval off (dec_low d, dec_high d)" by blast
  from shift_interval_ok(1,2)[OF ok c] dec_shift_contains_value[OF ok v dec_shifted.hyps(2)]
  show ?case by (simp add: e[symmetric])
next
  case (dec_settled k d)
  then have ok: "interval_ok (dec_low d, dec_high d)" by simp
  from dec_settled.hyps(2) have "renorm_case (dec_low d, dec_high d) = None"
    by (simp add: dec_renorm_step_None)
  from settled_wide[OF ok this] dec_settled.IH show ?case by simp
qed

section \<open>Tables of given texts\<close>

lemma count_list_replicate: "count_list (replicate n x) y = (if x = y then n else 0)"
  by (induction n) auto

lemma cmap_eqI:
  assumes "sorted_wrt (char_less sg) (map fst xs)" and "sorted_wrt (char_less sg) (map fst ys)"
    and "map_of xs = map_of ys"
  shows "xs = ys"
  using assms
proof (induction xs arbitrary: ys)
  case Nil
  then have "map_of ys = Map.empty" by simp
  then show ?case by (cases ys) (auto simp: fun_eq_iff split: if_splits)
next
  case (Cons p xs)
  obtain k v where p: "p = (k, v)" by (cases p)
  from Cons.prems(3) have eq: "map_of ys c = (if c = k then Some v else map_of xs c)" for c
  proof -
    from Cons.prems(3) have "map_of (p # xs) c = map_of ys c" by (rule fun_cong)
    then show ?thesis unfolding p by simp
  qed
  have "map_of ys k = Some v" by (simp add: eq)
  then obtain q ys' where ys: "ys = q # ys'" by (cases ys) auto
  obtain k' v' where q: "q = (k', v')" by (cases q)
  from Cons.prems(1) p have xl: "\<forall>x \<in> fst ` set xs. char_less sg k x" and xs: "sorted_wrt (char_less sg) (map fst xs)"
    by auto
  from Cons.prems(2) ys q have yl: "\<forall>y \<in> fst ` set ys'. char_less sg k' y"
    and ys': "sorted_wrt (char_less sg) (map fst ys')"
    by auto
  have kk: "k = k'"
  proof (rule ccontr)
    assume ne: "k \<noteq> k'"
    from \<open>map_of ys k = Some v\<close> ne ys q have "map_of ys' k = Some v" by simp
    then have "k \<in> fst ` set ys'" by (force dest: map_of_SomeD)
    with yl have 1: "char_less sg k' k" by blast
    from eq[of k'] ys q ne have "map_of xs k' = Some v'"
      by simp
    then have "k' \<in> fst ` set xs" by (force dest: map_of_SomeD)
    with xl have "char_less sg k k'" by blast
    with 1 show False using char_less_trans char_less_irrefl by blast
  qed
  from eq[of k] ys q kk have vv: "v = v'" by simp
  have nk: "k \<notin> fst ` set xs" "k \<notin> fst ` set ys'"
    using xl yl kk char_less_irrefl by blast+
  have "map_of xs c = map_of ys' c" for c
  proof (cases "c = k")
    case True
    from nk have "map_of xs k = None" "map_of ys' k = None"
      by (simp_all add: map_of_eq_None_iff)
    with True show ?thesis by simp
  next
    case False
    with eq[of c] ys q kk show ?thesis by simp
  qed
  then have "map_of xs = map_of ys'" by (simp add: fun_eq_iff)
  from Cons.IH[OF xs ys' this] p q kk vv ys show ?case by simp
qed

lemma calculateFrequencies_eqI:
  assumes "sorted_wrt (char_less sg) (map fst m)"
    and "\<And>c. map_of m c =
      (if c \<in> set ws then Some (word_of_nat (min (count_list ws c) 16383)) else None)"
  shows "calculateFrequencies sg ws = m"
  by (rule cmap_eqI[OF sorted_calculateFrequencies assms(1)])
     (simp add: fun_eq_iff map_of_calculateFrequencies assms(2))

lemma text_65533:
  "calculateFrequencies sg
     (2 # replicate 16383 0 @ replicate 16383 1 @ replicate 16383 3 @ replicate 16383 4) =
   [(0, 16383), (1, 16383), (2, 1), (3, 16383), (4, 16383)]"
  by (rule calculateFrequencies_eqI)
     (auto simp: char_less_def count_list_replicate)


lemma sorted_table_of: "sorted_wrt (char_less sg) (map fst (table_of sg entries))"
proof -
  have "sorted_wrt (char_less sg) (map fst (foldl (\<lambda>freq p. map_put sg (fst p) (snd p) freq) acc entries))"
    if "sorted_wrt (char_less sg) (map fst acc)" for acc
    using that by (induction entries arbitrary: acc) (simp_all add: sorted_map_put)
  from this[of "[]"] show ?thesis by (simp add: table_of_def)
qed

section \<open>The runs and the loops\<close>

text \<open>
  The state in which \<open>encode_loop\<close> (or \<open>decode_loop\<close>) ends is a state of the run: the
  run relations cover what the loops do.
\<close>

lemma enc_renorm_induct:
  assumes "enc_renorm s = Some y"
    and stop: "\<And>s. enc_renorm_step s = None \<Longrightarrow> P s s"
    and step: "\<And>s t y. enc_renorm_step s = Some t \<Longrightarrow> P t y \<Longrightarrow> P s y"
  shows "P s y"
proof (rule enc_renorm.raw_induct[OF _ assms(1)])
  fix f s sa
  assume IH: "\<And>x y. f x = Some y \<Longrightarrow> P x y"
    and c: "(case enc_renorm_step s of None \<Rightarrow> Some s | Some s' \<Rightarrow> f s') = Some sa"
  show "P s sa"
  proof (cases "enc_renorm_step s")
    case None
    with c stop[OF None] show ?thesis by simp
  next
    case (Some t)
    with c have "f t = Some sa" by simp
    from step[OF Some IH[OF this]] show ?thesis .
  qed
qed

lemma enc_renorm_run:
  assumes "enc_renorm s = Some s'" and "enc_run ranges ws (cs, InRenorm, s)"
  shows "enc_run ranges ws (cs, AtSymbol, s')"
proof -
  have "enc_run ranges ws (cs, InRenorm, s) \<longrightarrow> enc_run ranges ws (cs, AtSymbol, s')"
    by (rule enc_renorm_induct[OF assms(1)]) (auto intro: enc_settled enc_shifted)
  with assms(2) show ?thesis by simp
qed

lemma encode_loop_run:
  assumes "encode_loop ranges cs s = Some (Inr s')" and "enc_run ranges ws (cs, AtSymbol, s)"
  shows "enc_run ranges ws ([], AtSymbol, s')"
  using assms
proof (induction cs arbitrary: s)
  case Nil then show ?case by simp
next
  case (Cons c cs)
  from Cons.prems(1) obtain t u where t: "enc_narrow ranges c s = Inr t"
    and u: "enc_renorm t = Some u" and l: "encode_loop ranges cs u = Some (Inr s')"
    by (auto split: sum.splits option.splits)
  from enc_renorm_run[OF u enc_narrowed[OF Cons.prems(2) t]]
  have "enc_run ranges ws (cs, AtSymbol, u)" .
  from Cons.IH[OF l this] show ?case .
qed

lemma dec_renorm_induct:
  assumes "dec_renorm bits s = Some y"
    and stop: "\<And>s. dec_renorm_step bits s = None \<Longrightarrow> P s s"
    and step: "\<And>s t y. dec_renorm_step bits s = Some t \<Longrightarrow> P t y \<Longrightarrow> P s y"
  shows "P s y"
proof -
  have "bits' = bits \<longrightarrow> P s' y'" if "dec_renorm bits' s' = Some y'" for bits' s' y'
  proof (rule dec_renorm.raw_induct[OF _ that])
    fix f b s sa
    assume IH: "\<And>s b y. f s b = Some y \<Longrightarrow> s = bits \<longrightarrow> P b y"
      and c: "(case dec_renorm_step b s of None \<Rightarrow> Some s | Some s' \<Rightarrow> f b s') = Some sa"
    show "b = bits \<longrightarrow> P s sa"
    proof
      assume b: "b = bits"
      show "P s sa"
      proof (cases "dec_renorm_step bits s")
        case None
        with c b stop[OF None] show ?thesis by simp
      next
        case (Some t)
        with c b have "f bits t = Some sa" by simp
        from step[OF Some IH[OF this, rule_format]] show ?thesis by simp
      qed
    qed
  qed
  from this[OF assms(1)] show ?thesis by simp
qed

lemma dec_renorm_run:
  assumes "dec_renorm bits s = Some s'" and "dec_run ranges tot bits n (k, InRenorm, s)"
  shows "dec_run ranges tot bits n (k, AtSymbol, s')"
proof -
  have "dec_run ranges tot bits n (k, InRenorm, s) \<longrightarrow> dec_run ranges tot bits n (k, AtSymbol, s')"
    by (rule dec_renorm_induct[OF assms(1)]) (auto intro: dec_settled dec_shifted)
  with assms(2) show ?thesis by simp
qed

lemma decode_loop_run:
  assumes "decode_loop ranges tot bits k s = Some (Inr s')"
    and "dec_run ranges tot bits n (k, AtSymbol, s)"
  shows "dec_run ranges tot bits n (0, AtSymbol, s')"
  using assms
proof (induction k arbitrary: s)
  case 0 then show ?case by simp
next
  case (Suc k)
  from Suc.prems(1) obtain t u where t: "dec_narrow ranges tot s = Inr t"
    and u: "dec_renorm bits t = Some u" and l: "decode_loop ranges tot bits k u = Some (Inr s')"
    by (auto split: sum.splits option.splits)
  from dec_renorm_run[OF u dec_narrowed[OF Suc.prems(2) t]]
  have "dec_run ranges tot bits n (k, AtSymbol, u)" .
  from Suc.IH[OF l this] show ?case .
qed

section \<open>The products of the coder\<close>

lemma enc_run_bounded:
  assumes rs: "\<And>c. c \<in> set ws \<Longrightarrow> \<exists>r. map_of ranges c = Some r
      \<and> unat (low r) \<le> unat (high r) \<and> unat (high r) \<le> unat (count r)
      \<and> 0 < unat (count r) \<and> unat (count r) < 65536"
    and run: "enc_run ranges ws cf"
  shows "set (fst cf) \<subseteq> set ws \<and> bounded (enc_low (snd (snd cf)), enc_high (snd (snd cf)))"
  using run
proof (induction rule: enc_run.induct)
  case enc_start
  show ?case
    by (simp add: enc_init_def bounded_def range_of_def consts_val)
next
  case (enc_narrowed c cs s s')
  then have c: "c \<in> set ws" and b: "bounded (enc_low s, enc_high s)" by auto
  from rs[OF c] obtain r where r: "map_of ranges c = Some r"
    "unat (low r) \<le> unat (high r)" "unat (high r) \<le> unat (count r)"
    "0 < unat (count r)" "unat (count r) < 65536"
    by blast
  from narrow_bounded(3)[OF b r(2-5)] obtain lh' where
    n: "narrow r (enc_low s, enc_high s) = Inr lh'" and b': "bounded lh'" by blast
  from enc_narrowed.hyps(2) n have s': "enc_low s' = fst lh'" "enc_high s' = snd lh'"
    by (auto simp: enc_narrow_interval[OF r(1)])
  from enc_narrowed.IH b' show ?case
    by (auto simp: s')
next
  case (enc_shifted cs s s')
  then have b: "bounded (enc_low s, enc_high s)" by simp
  from enc_renorm_step_Some[OF enc_shifted.hyps(2)] obtain off where
    c: "renorm_case (enc_low s, enc_high s) = Some off"
    and e: "(enc_low s', enc_high s') = shift_interval off (enc_low s, enc_high s)" by blast
  from shift_bounded[OF b c] enc_shifted.IH show ?case
    by (simp add: e[symmetric])
next
  case (enc_settled cs s)
  then show ?case by simp
qed

lemma total_nat_const:
  "(\<And>p. p \<in> set freq \<Longrightarrow> unat (snd p) = b) \<Longrightarrow> total_nat freq = length freq * b"
  by (induction freq) auto

lemma all_bytes_distinct: "distinct all_bytes"
proof -
  have "inj_on (word_of_nat :: nat \<Rightarrow> byte) (set [0..<256])"
  proof (rule inj_onI)
    fix x y :: nat assume "x \<in> set [0..<256]" "y \<in> set [0..<256]"
      and e: "(word_of_nat x :: byte) = word_of_nat y"
    then have "x < 256" "y < 256" by (simp_all only: set_upt atLeastLessThan_iff)
    then have "unat (word_of_nat x :: byte) = x" "unat (word_of_nat y :: byte) = y"
      by (simp_all add: unat_of_nat)
    with e show "x = y" by metis
  qed
  then show ?thesis unfolding all_bytes_def distinct_map using distinct_upt by blast
qed

lemma all_bytes_set: "set all_bytes = UNIV"
proof -
  have "c \<in> set all_bytes" for c :: byte
  proof -
    have "unat c < 256" using unsigned_less[of c, where 'a = nat] by simp
    moreover have "word_of_nat (unat c) = c" by simp
    ultimately have "c \<in> word_of_nat ` {0..<256}" by (intro image_eqI[of _ _ "unat c"]) simp_all
    then show ?thesis unfolding all_bytes_def by (simp only: set_map set_upt)
  qed
  then show ?thesis by auto
qed

lemma count_list_distinct: "distinct xs \<Longrightarrow> c \<in> set xs \<Longrightarrow> count_list xs c = 1"
  by (induction xs) auto

lemma count_list_concat_replicate:
  "count_list (concat (replicate n xs)) c = n * count_list xs c"
  by (induction n) (simp_all add: algebra_simps)

lemma total_reaches_max:
  "total_nat (calculateFrequencies sg (concat (replicate 16383 all_bytes))) = 256 * 16383"
proof -
  let ?all = "all_bytes"
  let ?ws = "concat (replicate 16383 ?all)"
  let ?f = "calculateFrequencies sg ?ws"
  have one: "count_list ?all c = 1" for c
    by (rule count_list_distinct[OF all_bytes_distinct]) (simp only: all_bytes_set UNIV_I)
  have cnt: "count_list ?ws c = 16383" for c
    by (simp only: count_list_concat_replicate one mult_1_right)
  have "unat (snd p) = 16383" if "p \<in> set ?f" for p
  proof -
    obtain c v where p: "p = (c, v)" by (cases p)
    from calculateFrequencies_entry[OF that[unfolded p]]
    have "v = word_of_nat (min (count_list ?ws c) 16383)" by simp
    then show ?thesis by (simp only: cnt p snd_conv) simp
  qed
  then have t: "total_nat ?f = length ?f * 16383" by (rule total_nat_const)
  have "set ?ws = UNIV"
  proof -
    have "c \<in> set ?ws" for c
    proof (rule ccontr)
      assume "c \<notin> set ?ws"
      then have "count_list ?ws c = 0" by (simp only: count_list_0_iff not_False_eq_True)
      with cnt[of c] show False by simp
    qed
    then show ?thesis by auto
  qed
  then have "fst ` set ?f = UNIV" by (simp only: keys_calculateFrequencies)
  moreover have "distinct (map fst ?f)"
    by (rule sorted_char_less_distinct[OF sorted_calculateFrequencies])
  ultimately have "length ?f = card (UNIV :: byte set)"
    using distinct_card[of "map fst ?f"] by (simp only: set_map length_map)
  then have "length ?f = 256" by (simp add: card_word)
  with t show ?thesis by simp
qed

lemma text_65536:
  "calculateFrequencies sg
     (4 # 4 # 4 # 4 # replicate 16383 0 @ replicate 16383 1 @ replicate 16383 2 @ replicate 16383 3) =
   [(0, 16383), (1, 16383), (2, 16383), (3, 16383), (4, 4)]"
  by (rule calculateFrequencies_eqI)
     (auto simp: char_less_def count_list_replicate)


lemma unat_minus_1: "unat (x - 1 :: u32) = (unat x + (2 ^ 32 - 1)) mod 2 ^ 32"
proof -
  have "x - 1 = x + (- 1)" by simp
  moreover have "unat (- 1 :: u32) = 2 ^ 32 - 1"
    by (simp add: unsigned_minus_1_eq_mask mask_eq_exp_minus_1)
  ultimately show ?thesis by (simp only: unat_word_ariths(1)) simp
qed

lemma narrow_mod:
  "narrow r lh =
     (if count r = 0 then Inl DivisionByZero
      else Inr (fst lh + (snd lh - fst lh + 1) * low r div count r,
                fst lh + (snd lh - fst lh + 1) * high r div count r - 1))"
  and "unat (fst lh + (snd lh - fst lh + 1) * low r div count r) =
        (unat (fst lh) + (range_of lh * unat (low r)) mod 2 ^ 32 div unat (count r)) mod 2 ^ 32"
  and "unat (fst lh + (snd lh - fst lh + 1) * high r div count r - 1) =
        ((unat (fst lh) + (range_of lh * unat (high r)) mod 2 ^ 32 div unat (count r)) mod 2 ^ 32
          + (2 ^ 32 - 1)) mod 2 ^ 32"
proof -
  show "narrow r lh =
     (if count r = 0 then Inl DivisionByZero
      else Inr (fst lh + (snd lh - fst lh + 1) * low r div count r,
                fst lh + (snd lh - fst lh + 1) * high r div count r - 1))"
    by (simp add: narrow_def Let_def)
  have m: "unat ((snd lh - fst lh + 1) * x) = (range_of lh * unat x) mod 2 ^ 32" for x
    by (simp only: unat_word_ariths(2) range_of_def) simp
  have d: "unat ((snd lh - fst lh + 1) * x div count r) =
      (range_of lh * unat x) mod 2 ^ 32 div unat (count r)" for x
    by (simp only: unat_div m)
  have a: "unat (fst lh + y) = (unat (fst lh) + unat y) mod 2 ^ 32" for y :: u32
    by (simp only: unat_word_ariths(1)) simp
  show "unat (fst lh + (snd lh - fst lh + 1) * low r div count r) =
        (unat (fst lh) + (range_of lh * unat (low r)) mod 2 ^ 32 div unat (count r)) mod 2 ^ 32"
    by (simp only: a d)
  show "unat (fst lh + (snd lh - fst lh + 1) * high r div count r - 1) =
        ((unat (fst lh) + (range_of lh * unat (high r)) mod 2 ^ 32 div unat (count r)) mod 2 ^ 32
          + (2 ^ 32 - 1)) mod 2 ^ 32"
    by (simp only: unat_minus_1 a d)
qed

lemma scaled_mod:
  "unat (scaled tot s) =
     ((unat (dec_value s - dec_low s + 1) * unat tot) mod 2 ^ 32 + (2 ^ 32 - 1)) mod 2 ^ 32
       div range_of (dec_low s, dec_high s)"
proof -
  have m: "unat ((dec_value s - dec_low s + 1) * tot) =
      (unat (dec_value s - dec_low s + 1) * unat tot) mod 2 ^ 32"
    by (simp only: unat_word_ariths(2)) simp
  show ?thesis
    by (simp only: scaled_def unat_div unat_minus_1 m range_of_def fst_conv snd_conv)
qed

lemma dec_products:
  fixes d :: decoder
  assumes s: "sorted_wrt (char_less sg) (map fst freq)" and t: "total_nat freq < 65536"
    and ok: "interval_ok (dec_low d, dec_high d)"
    and v: "dec_low d \<le> dec_value d" "dec_value d \<le> dec_high d"
  shows "unat (dec_value d - dec_low d + 1) * unat (snd (buildCumulativeFreq sg freq)) < 2 ^ 32"
    and "range_of (dec_low d, dec_high d) *
          unat (high (map_get \<lparr>low = 0, high = 0, count = 0\<rparr> (fst (buildCumulativeFreq sg freq)) c))
          < 2 ^ 32"
    and "range_of (dec_low d, dec_high d) *
          unat (low (map_get \<lparr>low = 0, high = 0, count = 0\<rparr> (fst (buildCumulativeFreq sg freq)) c))
          < 2 ^ 32"
proof -
  let ?rs = "fst (buildCumulativeFreq sg freq)"
  let ?tot = "snd (buildCumulativeFreq sg freq)"
  let ?r = "map_get \<lparr>low = 0, high = 0, count = 0\<rparr> ?rs c"
  from t have t32: "total_nat freq < 2 ^ 32" by simp
  have b: "buildCumulativeFreq sg freq = (cum_ranges (sum_counts freq) 0 freq, sum_counts freq)"
    by (rule buildCumulativeFreq_sorted[OF s])
  have ut: "unat ?tot = total_nat freq"
    using sorted_unat_total[OF t32] by (simp add: b)
  show "unat (dec_value d - dec_low d + 1) * unat ?tot < 2 ^ 32"
  proof (cases "0 < unat ?tot")
    case True
    from scaled_in_range(1)[OF ok v True] t ut show ?thesis by simp
  next
    case False then show ?thesis by simp
  qed
  have r: "unat (low ?r) \<le> 65535 \<and> unat (high ?r) \<le> 65535"
  proof (cases "map_of ?rs c")
    case None then show ?thesis by (simp add: map_get_def)
  next
    case (Some r)
    then have "(c, r) \<in> set ?rs" by (rule map_of_SomeD)
    from table_ranges(2,3)[OF s t32 this] t Some show ?thesis by (simp add: map_get_def)
  qed
  from interval_ok_range(2)[OF ok] have R: "range_of (dec_low d, dec_high d) \<le> 65536"
    by (simp add: bounded_def)
  have "range_of (dec_low d, dec_high d) * unat (high ?r) \<le> 65536 * 65535"
    using R r by (intro mult_le_mono) simp_all
  then show "range_of (dec_low d, dec_high d) * unat (high ?r) < 2 ^ 32" by simp
  have "range_of (dec_low d, dec_high d) * unat (low ?r) \<le> 65536 * 65535"
    using R r by (intro mult_le_mono) simp_all
  then show "range_of (dec_low d, dec_high d) * unat (low ?r) < 2 ^ 32" by simp
qed

lemma enc_products:
  assumes T: "total_nat (calculateFrequencies sg ws) < 65536"
    and run: "enc_run (fst (buildCumulativeFreq sg (calculateFrequencies sg ws))) ws (c # cs, ph, s)"
  shows "range_of (enc_low s, enc_high s) *
          unat (high (map_get \<lparr>low = 0, high = 0, count = 0\<rparr>
            (fst (buildCumulativeFreq sg (calculateFrequencies sg ws))) c)) < 2 ^ 32"
    and "range_of (enc_low s, enc_high s) *
          unat (low (map_get \<lparr>low = 0, high = 0, count = 0\<rparr>
            (fst (buildCumulativeFreq sg (calculateFrequencies sg ws))) c)) < 2 ^ 32"
proof -
  let ?rs = "fst (buildCumulativeFreq sg (calculateFrequencies sg ws))"
  have rs: "\<exists>r. map_of ?rs c = Some r
      \<and> unat (low r) \<le> unat (high r) \<and> unat (high r) \<le> unat (count r)
      \<and> 0 < unat (count r) \<and> unat (count r) < 65536"
    if "c \<in> set ws" for c
    using text_ranges[OF that, of sg] T by auto
  from enc_run_bounded[OF rs run] have c: "c \<in> set ws"
    and b: "bounded (enc_low s, enc_high s)" by auto
  from rs[OF c] obtain r where r: "map_of ?rs c = Some r"
    "unat (low r) \<le> unat (high r)" "unat (high r) \<le> unat (count r)"
    "0 < unat (count r)" "unat (count r) < 65536" by blast
  from r(1) have g: "map_get \<lparr>low = 0, high = 0, count = 0\<rparr> ?rs c = r"
    by (simp add: map_get_def)
  from narrow_bounded(1,2)[OF b r(2-5)]
  show "range_of (enc_low s, enc_high s) *
          unat (high (map_get \<lparr>low = 0, high = 0, count = 0\<rparr> ?rs c)) < 2 ^ 32"
    and "range_of (enc_low s, enc_high s) *
          unat (low (map_get \<lparr>low = 0, high = 0, count = 0\<rparr> ?rs c)) < 2 ^ 32"
    by (simp_all add: g)
qed


lemma ranges_65536:
  "buildCumulativeFreq sg [(0, 16383), (1, 16383), (2, 16383), (3, 16383), (4, 4)] =
    ([(0, \<lparr>low = 0, high = 16383, count = 65536\<rparr>), (1, \<lparr>low = 16383, high = 32766, count = 65536\<rparr>),
      (2, \<lparr>low = 32766, high = 49149, count = 65536\<rparr>), (3, \<lparr>low = 49149, high = 65532, count = 65536\<rparr>),
      (4, \<lparr>low = 65532, high = 65536, count = 65536\<rparr>)], 65536)"
proof -
  have "sorted_wrt (char_less sg) (map fst [(0, 16383), (1, 16383), (2, 16383), (3, 16383), (4, 4 :: u32)])"
    by (auto simp: char_less_def)
  from buildCumulativeFreq_sorted[OF this] show ?thesis
    by (simp add: sum_counts_def)
qed

section \<open>The source encoder against the specification\<close>

lemma spec_consts: "S_TOP = 65535" "S_FIRST_QTR = 16384" "S_HALF = 32768" "S_THIRD_QTR = 49152"
  by (simp_all add: S_TOP_def S_FIRST_QTR_def S_HALF_def S_THIRD_QTR_def)

lemma unat_succ: "unat (p :: u32) + 1 < 2 ^ 32 \<Longrightarrow> unat (p + 1) = unat p + 1"
  using unat_add_exact[of p 1] by simp

lemma step_sim:
  assumes ok: "interval_ok (enc_low s, enc_high s)" and p: "unat (pending_bits s) + 1 < 2 ^ 32"
  shows "spec_renorm_step (abstract s) = map_option abstract (enc_renorm_step s)"
proof -
  from ok have lh: "unat (enc_low s) \<le> unat (enc_high s)" "unat (enc_high s) \<le> 65535"
    by (simp_all add: interval_ok_unat)
  then have le: "fst (enc_low s, enc_high s) \<le> snd (enc_low s, enc_high s)"
    and h31: "unat (snd (enc_low s, enc_high s)) < 2 ^ 31"
    by (simp_all add: word_le_nat_alt)
  have sh: "unat (push_bit 1 (enc_low s - off)) = 2 * (unat (enc_low s) - unat off)"
    "unat (push_bit 1 (enc_high s - off) OR 1) = 2 * (unat (enc_high s) - unat off) + 1"
    if "off \<le> enc_low s" for off
    using shift_interval_unat[of off "(enc_low s, enc_high s)", OF _ le h31] that
    by (simp_all add: shift_interval_def)
  show ?thesis
  proof (cases "enc_high s < HALF")
    case True
    then have "unat (enc_high s) < 32768" by (simp add: consts_val word_less_nat_alt)
    with True sh[of 0] show ?thesis
      by (simp add: spec_renorm_step_def enc_renorm_step_def abstract_def spec_consts)
  next
    case nE1: False
    then have h: "\<not> unat (enc_high s) < 32768" by (simp add: consts_val word_less_nat_alt)
    show ?thesis
    proof (cases "enc_low s \<ge> HALF")
      case True
      then have "32768 \<le> unat (enc_low s)" by (simp add: consts_val word_le_nat_alt)
      with True nE1 h sh[of HALF] show ?thesis
        by (simp add: spec_renorm_step_def enc_renorm_step_def abstract_def spec_consts consts_val)
    next
      case nE2: False
      then have l: "\<not> 32768 \<le> unat (enc_low s)" by (simp add: consts_val word_le_nat_alt)
      show ?thesis
      proof (cases "enc_low s \<ge> FIRST_QTR \<and> enc_high s < THIRD_QTR")
        case True
        then have "16384 \<le> unat (enc_low s)" "unat (enc_high s) < 49152"
          by (simp_all add: consts_val word_le_nat_alt word_less_nat_alt)
        with True nE1 nE2 h l sh[of FIRST_QTR] unat_succ[OF p] show ?thesis
          by (simp add: spec_renorm_step_def enc_renorm_step_def abstract_def spec_consts consts_val)
      next
        case False
        then have "\<not> (16384 \<le> unat (enc_low s) \<and> unat (enc_high s) < 49152)"
          by (simp add: consts_val word_le_nat_alt word_less_nat_alt)
        with False nE1 nE2 h l show ?thesis
          by (simp add: spec_renorm_step_def enc_renorm_step_def abstract_def spec_consts)
      qed
    qed
  qed
qed


lemma enc_step_pending:
  "enc_renorm_step s = Some t \<Longrightarrow> pending_bits t = 0 \<or> pending_bits t = pending_bits s + 1"
  by (auto simp: enc_renorm_step_def split: if_splits)

lemma pow2_bound:
  fixes R :: nat
  assumes "2 ^ p \<le> R * 2 ^ B" and "R \<le> 2 ^ e"
  shows "p \<le> e + B"
proof -
  have "R * 2 ^ B \<le> 2 ^ e * (2 :: nat) ^ B" using assms(2) by (rule mult_le_mono1)
  with assms(1) have "(2 :: nat) ^ p \<le> 2 ^ e * 2 ^ B" by (rule le_trans)
  then have "(2 :: nat) ^ p \<le> 2 ^ (e + B)" by (simp only: power_add)
  then show ?thesis by (rule power_le_imp_le_exp[rotated]) simp
qed

lemma renorm_sim:
  assumes "interval_ok (enc_low s, enc_high s)"
    and "2 ^ unat (pending_bits s) \<le> range_of (enc_low s, enc_high s) * 2 ^ B"
    and B: "B + 17 < 2 ^ 32"
  shows "\<exists>s'. enc_renorm s = Some s' \<and> spec_renorm (abstract s) = Some (abstract s')
          \<and> wide (enc_low s', enc_high s')
          \<and> 2 ^ unat (pending_bits s') \<le> range_of (enc_low s', enc_high s') * 2 ^ B"
  using assms(1,2)
proof (induction "65536 - range_of (enc_low s, enc_high s)" arbitrary: s rule: less_induct)
  case less
  note ok = less.prems(1) and pb = less.prems(2)
  note rg = interval_ok_range[OF ok]
  from rg(2,3) have R: "range_of (enc_low s, enc_high s) \<le> 2 ^ 16" "0 < range_of (enc_low s, enc_high s)"
    by (simp_all add: bounded_def)
  from pow2_bound[OF pb R(1)] B have p: "unat (pending_bits s) + 1 < 2 ^ 32" by simp
  note sim = step_sim[OF ok p]
  show ?case
  proof (cases "enc_renorm_step s")
    case None
    then have e: "enc_renorm s = Some s" by (subst enc_renorm.simps) simp
    from None sim have "spec_renorm_step (abstract s) = None" by simp
    then have sp: "spec_renorm (abstract s) = Some (abstract s)" by (subst spec_renorm.simps) simp
    from None have "renorm_case (enc_low s, enc_high s) = None" by (simp add: enc_renorm_step_None)
    from settled_wide[OF ok this] e sp pb show ?thesis by blast
  next
    case (Some t)
    then have e: "enc_renorm s = enc_renorm t" by (subst enc_renorm.simps) simp
    from Some sim have "spec_renorm_step (abstract s) = Some (abstract t)" by simp
    then have sp: "spec_renorm (abstract s) = spec_renorm (abstract t)"
      by (subst spec_renorm.simps) simp
    from enc_renorm_step_Some[OF Some] obtain off where
      c: "renorm_case (enc_low s, enc_high s) = Some off"
      and sh: "(enc_low t, enc_high t) = shift_interval off (enc_low s, enc_high s)" by blast
    from shift_interval_ok[OF ok c] have ok': "interval_ok (enc_low t, enc_high t)"
      and d: "unat (enc_high t) - unat (enc_low t) = 2 * (unat (enc_high s) - unat (enc_low s)) + 1"
      by (simp_all add: sh[symmetric])
    note rg' = interval_ok_range[OF ok']
    from rg'(1) rg(1) d have R': "range_of (enc_low t, enc_high t) = 2 * range_of (enc_low s, enc_high s)"
      by simp
    from rg'(2) have "range_of (enc_low t, enc_high t) \<le> 65536" by (simp add: bounded_def)
    with R' R(2) have m: "65536 - range_of (enc_low t, enc_high t) < 65536 - range_of (enc_low s, enc_high s)"
      by simp
    have pb': "2 ^ unat (pending_bits t) \<le> range_of (enc_low t, enc_high t) * 2 ^ B"
    proof -
      from enc_step_pending[OF Some] show ?thesis
      proof
        assume "pending_bits t = 0"
        with R' R(2) show ?thesis by (simp add: Suc_le_eq)
      next
        assume "pending_bits t = pending_bits s + 1"
        with unat_succ[OF p] have "unat (pending_bits t) = unat (pending_bits s) + 1" by simp
        with pb R' show ?thesis by simp
      qed
    qed
    from less.hyps[OF m ok' pb'] e sp show ?thesis by simp
  qed
qed


lemma spec_cumulative_cum_ranges:
  assumes "unat cumulative + total_nat freq < 2 ^ 32"
  shows "map (\<lambda>p. (fst p, unat (low (snd p)), unat (high (snd p)), unat (count (snd p))))
           (cum_ranges tot cumulative freq) =
         spec_cumulative (unat tot) (unat cumulative) (map (\<lambda>p. (fst p, unat (snd p))) freq)"
  using assms
proof (induction freq arbitrary: cumulative)
  case Nil show ?case by simp
next
  case (Cons q freq)
  from Cons.prems have a: "unat (cumulative + snd q) = unat cumulative + unat (snd q)"
    by (intro unat_add_exact) simp
  with Cons.prems have "unat (cumulative + snd q) + total_nat freq < 2 ^ 32" by simp
  from Cons.IH[OF this] a show ?case by simp
qed

lemma spec_ranges_lookup:
  assumes s: "sorted_wrt (char_less sg) (map fst freq)" and t: "total_nat freq < 2 ^ 32"
    and m: "map_of (fst (buildCumulativeFreq sg freq)) c = Some r"
  shows "map_of (spec_ranges freq) c = Some (unat (low r), unat (high r), unat (count r))"
proof -
  let ?g = "\<lambda>r. (unat (low r), unat (high r), unat (count r))"
  have b: "buildCumulativeFreq sg freq = (cum_ranges (sum_counts freq) 0 freq, sum_counts freq)"
    by (rule buildCumulativeFreq_sorted[OF s])
  have "unat (0 :: u32) + total_nat freq < 2 ^ 32" using t by simp
  from spec_cumulative_cum_ranges[OF this, of "sum_counts freq"] sorted_unat_total[OF t]
  have "spec_ranges freq =
      map (\<lambda>p. (fst p, ?g (snd p))) (cum_ranges (sum_counts freq) 0 freq)"
    by (simp add: spec_ranges_def total_nat_def)
  moreover have "map_of (map (\<lambda>p. (fst p, ?g (snd p))) rs) c = map_option ?g (map_of rs c)"
    for rs :: "SymbolRange cmap"
    by (induction rs) auto
  ultimately show ?thesis using m by (simp add: b)
qed

lemma narrow_sim:
  assumes w: "wide (enc_low s, enc_high s)" and m: "map_of ranges c = Some r"
    and r: "unat (low r) < unat (high r)" "unat (high r) \<le> unat (count r)"
      "unat (count r) \<le> 16384"
  shows "\<exists>s'. enc_narrow ranges c s = Inr s'
          \<and> abstract s' = spec_narrow (unat (low r), unat (high r), unat (count r)) (abstract s)
          \<and> interval_ok (enc_low s', enc_high s') \<and> pending_bits s' = pending_bits s"
proof -
  from narrow_wide[OF w r] obtain lh' where n: "narrow r (enc_low s, enc_high s) = Inr lh'"
    and ok: "interval_ok lh'"
    and l: "unat (fst lh') = unat (enc_low s)
                + ((unat (enc_high s) - unat (enc_low s) + 1) * unat (low r)) div unat (count r)"
    and h: "unat (snd lh') = unat (enc_low s)
                + ((unat (enc_high s) - unat (enc_low s) + 1) * unat (high r)) div unat (count r) - 1"
    by auto
  let ?s' = "s\<lparr>enc_low := fst lh', enc_high := snd lh'\<rparr>"
  have "enc_narrow ranges c s = Inr ?s'"
    by (simp add: enc_narrow_interval[OF m] n)
  moreover have "abstract ?s' = spec_narrow (unat (low r), unat (high r), unat (count r)) (abstract s)"
    by (simp add: abstract_def spec_narrow_def Let_def l h)
  ultimately show ?thesis using ok by auto
qed

lemma loop_sim:
  assumes rs: "\<And>c. c \<in> set cs \<Longrightarrow> \<exists>r. map_of ranges c = Some r
        \<and> map_of sranges c = Some (unat (low r), unat (high r), unat (count r))
        \<and> unat (low r) < unat (high r) \<and> unat (high r) \<le> unat (count r)
        \<and> unat (count r) \<le> 16384"
    and w: "wide (enc_low s, enc_high s)"
    and pb: "unat (pending_bits s) \<le> 16 * k"
    and bd: "16 * (k + length cs) + 1 < 2 ^ 32"
  shows "\<exists>s'. encode_loop ranges cs s = Some (Inr s')
          \<and> spec_loop sranges cs (abstract s) = Some (abstract s')
          \<and> unat (pending_bits s') \<le> 16 * (k + length cs)"
  using assms
proof (induction cs arbitrary: s k)
  case Nil
  then show ?case by simp
next
  case (Cons c cs)
  from Cons.prems(1)[of c] obtain r where m: "map_of ranges c = Some r"
    and sm: "map_of sranges c = Some (unat (low r), unat (high r), unat (count r))"
    and r: "unat (low r) < unat (high r)" "unat (high r) \<le> unat (count r)"
      "unat (count r) \<le> 16384" by auto
  from narrow_sim[OF Cons.prems(2) m r] obtain t where t: "enc_narrow ranges c s = Inr t"
    and at: "abstract t = spec_narrow (unat (low r), unat (high r), unat (count r)) (abstract s)"
    and ok: "interval_ok (enc_low t, enc_high t)" and pt: "pending_bits t = pending_bits s"
    by blast
  from interval_ok_range(3)[OF ok] have "1 \<le> range_of (enc_low t, enc_high t)" by simp
  then have "1 * (2 :: nat) ^ (16 * k) \<le> range_of (enc_low t, enc_high t) * 2 ^ (16 * k)"
    by (rule mult_le_mono1)
  then have a: "(2 :: nat) ^ (16 * k) \<le> range_of (enc_low t, enc_high t) * 2 ^ (16 * k)"
    by (simp only: mult_1)
  have "(2 :: nat) ^ unat (pending_bits t) \<le> 2 ^ (16 * k)"
    using Cons.prems(3) pt by (intro power_increasing) simp_all
  from this a have pb: "2 ^ unat (pending_bits t) \<le> range_of (enc_low t, enc_high t) * 2 ^ (16 * k)"
    by (rule le_trans)
  from Cons.prems(4) have B: "16 * k + 17 < 2 ^ 32" by simp
  from renorm_sim[OF ok pb B] obtain u where u: "enc_renorm t = Some u"
    and su: "spec_renorm (abstract t) = Some (abstract u)"
    and wu: "wide (enc_low u, enc_high u)"
    and pu: "2 ^ unat (pending_bits u) \<le> range_of (enc_low u, enc_high u) * 2 ^ (16 * k)"
    by blast
  from wu have "interval_ok (enc_low u, enc_high u)" by (simp add: wide_def)
  from interval_ok_range(2)[OF this] have "range_of (enc_low u, enc_high u) \<le> 2 ^ 16"
    by (simp add: bounded_def)
  from pow2_bound[OF pu this] have pu': "unat (pending_bits u) \<le> 16 * Suc k" by simp
  from Cons.prems(4) have bd': "16 * (Suc k + length cs) + 1 < 2 ^ 32" by simp
  from Cons.IH[OF Cons.prems(1) wu pu' bd'] obtain s' where
    "encode_loop ranges cs u = Some (Inr s')" "spec_loop sranges cs (abstract u) = Some (abstract s')"
    "unat (pending_bits s') \<le> 16 * (Suc k + length cs)" by auto
  with t u su sm at show ?case by auto
qed


lemma finish_sim:
  assumes "unat (pending_bits s) + 1 < 2 ^ 32"
  shows "enc_finish s = spec_finish (abstract s)"
proof -
  have "enc_low s < FIRST_QTR \<longleftrightarrow> unat (enc_low s) < 16384"
    by (simp add: consts_val word_less_nat_alt)
  with unat_succ[OF assms] show ?thesis
    by (simp add: enc_finish_def spec_finish_def abstract_def spec_consts)
qed

lemma abstract_init: "abstract enc_init = spec_init"
  by (simp add: abstract_def enc_init_def spec_init_def consts_val spec_consts)

subsection \<open>An input on which the encoder never returns\<close>

text \<open>
  From an empty interval every renormalisation step leads to an empty interval, so the
  \<^verbatim>\<open>while (true)\<close> loop of \<^verbatim>\<open>compressFile\<close> never reaches its \<^verbatim>\<open>break\<close>. A text of 49151 bytes
  whose table sums to 49151 reaches such an interval at its second symbol.
\<close>

lemma degenerate_step:
  assumes d: "degenerate lh"
  shows "\<exists>off. renorm_case lh = Some off \<and> degenerate (shift_interval off lh)"
proof -
  define l where "l = unat (fst lh)"
  from d have h: "snd lh = fst lh - 1" and l: "1 \<le> l" "l \<le> 65536"
    by (auto simp: degenerate_def l_def algebra_simps eq_diff_eq)
  from l have "1 \<le> fst lh" by (simp add: word_le_nat_alt l_def)
  then have uh: "unat (snd lh) = l - 1" unfolding h l_def by (simp add: unat_sub)
  have c: "renorm_case lh \<noteq> None"
  proof
    assume "renorm_case lh = None"
    from renorm_case_None[OF this] uh l show False unfolding l_def by arith
  qed
  then obtain off where off: "renorm_case lh = Some off" by auto
  have r': "snd (shift_interval off lh) + 1 = fst (shift_interval off lh)"
    unfolding shift_interval_def fst_conv snd_conv shl1_or1
    unfolding shl1_mult h
    by (simp add: algebra_simps)
  have offl: "off \<le> fst lh \<and> unat off < l \<and> 2 * (l - unat off) \<le> 65536"
    using off
  proof (cases rule: renorm_case_cases)
    case E1
    with l show ?thesis using uh by (simp add: l_def)
  next
    case E2
    with l uh show ?thesis unfolding l_def by (simp add: consts_val word_le_nat_alt) arith
  next
    case E3
    with l uh show ?thesis by (simp add: l_def)
  qed
  then have o: "off \<le> fst lh" by simp
  have "unat (fst lh - off) = l - unat off" unfolding l_def by (rule unat_sub[OF o])
  moreover from l have "l - unat off < 2 ^ 31" by simp
  ultimately have "unat (2 * (fst lh - off)) = 2 * (l - unat off)"
    using unat_double[of "fst lh - off"] by simp
  then have u: "unat (fst (shift_interval off lh)) = 2 * (l - unat off)"
    by (simp only: shift_interval_def fst_conv shl1_mult)
  from offl have p: "1 \<le> 2 * (l - unat off)" by arith
  from u p offl r' have "degenerate (shift_interval off lh)"
    unfolding degenerate_def by simp
  with off show ?thesis by blast
qed

lemma enc_degenerate_step:
  assumes "degenerate (enc_low s, enc_high s)"
  shows "\<exists>t. enc_renorm_step s = Some t \<and> degenerate (enc_low t, enc_high t)"
proof -
  from degenerate_step[OF assms] obtain off where
    c: "renorm_case (enc_low s, enc_high s) = Some off"
    and d: "degenerate (shift_interval off (enc_low s, enc_high s))" by blast
  from c have "enc_renorm_step s \<noteq> None" by (simp add: enc_renorm_step_None)
  then obtain t where t: "enc_renorm_step s = Some t" by auto
  from enc_renorm_step_Some[OF t] c d have "degenerate (enc_low t, enc_high t)" by auto
  with t show ?thesis by blast
qed

lemma enc_renorm_diverges:
  assumes "degenerate (enc_low s, enc_high s)"
  shows "enc_renorm s = None"
proof (rule ccontr)
  assume "enc_renorm s \<noteq> None"
  then obtain y where y: "enc_renorm s = Some y" by auto
  have "\<not> degenerate (enc_low s, enc_high s)"
  proof (rule enc_renorm_induct[OF y])
    fix s assume "enc_renorm_step s = None"
    with enc_degenerate_step[of s] show "\<not> degenerate (enc_low s, enc_high s)" by auto
  next
    fix s t y assume "enc_renorm_step s = Some t" "\<not> degenerate (enc_low t, enc_high t)"
    with enc_degenerate_step[of s] show "\<not> degenerate (enc_low s, enc_high s)" by auto
  qed
  with assms show False by simp
qed

lemma text_49151:
  "calculateFrequencies sg
     (0 # 3 # replicate 16382 0 @ replicate 16383 1 @ 2 # replicate 16383 4) =
   [(0, 16383), (1, 16383), (2, 1), (3, 1), (4, 16383)]"
  by (rule calculateFrequencies_eqI)
     (auto simp: char_less_def count_list_replicate)

lemma ranges_49151:
  "buildCumulativeFreq sg [(0, 16383), (1, 16383), (2, 1), (3, 1), (4, 16383)] =
    ([(0, \<lparr>low = 0, high = 16383, count = 49151\<rparr>), (1, \<lparr>low = 16383, high = 32766, count = 49151\<rparr>),
      (2, \<lparr>low = 32766, high = 32767, count = 49151\<rparr>), (3, \<lparr>low = 32767, high = 32768, count = 49151\<rparr>),
      (4, \<lparr>low = 32768, high = 49151, count = 49151\<rparr>)], 49151)"
proof -
  have "sorted_wrt (char_less sg) (map fst [(0, 16383), (1, 16383), (2, 1), (3, 1), (4, 16383 :: u32)])"
    by (auto simp: char_less_def)
  from buildCumulativeFreq_sorted[OF this] show ?thesis
    by (simp add: sum_counts_def)
qed

lemma compress_never_returns:
  "compressFile sg (0 # 3 # replicate 16382 0 @ replicate 16383 1 @ 2 # replicate 16383 4) = None"
proof -
  let ?rest = "replicate 16382 0 @ replicate 16383 1 @ 2 # replicate 16383 (4 :: byte)"
  let ?rs = "[(0, \<lparr>low = 0, high = 16383, count = 49151\<rparr>), (1, \<lparr>low = 16383, high = 32766, count = 49151\<rparr>),
      (2, \<lparr>low = 32766, high = 32767, count = 49151\<rparr>), (3, \<lparr>low = 32767, high = 32768, count = 49151\<rparr>),
      (4, \<lparr>low = 32768, high = 49151, count = 49151\<rparr>)] :: SymbolRange cmap"
  let ?s1 = "\<lparr>enc_low = 0, enc_high = 21843, pending_bits = 0, output_bits = []\<rparr>"
  let ?s2 = "\<lparr>enc_low = 0, enc_high = 43687, pending_bits = 0, output_bits = [False]\<rparr>"
  let ?s3 = "\<lparr>enc_low = 29125, enc_high = 29124, pending_bits = 0, output_bits = [False]\<rparr>"
  have n1: "enc_narrow ?rs 0 enc_init = Inr ?s1"
    by (simp add: enc_narrow_def map_get_def narrow_def enc_init_def TOP_def)
  have st1: "enc_renorm_step ?s1 = Some ?s2"
    by (simp add: enc_renorm_step_def consts_val)
  have st2: "enc_renorm_step ?s2 = None"
    by (simp add: enc_renorm_step_def consts_val)
  have r1: "enc_renorm ?s1 = Some ?s2"
    by (subst enc_renorm.simps, simp only: st1 option.case, subst enc_renorm.simps, simp only: st2 option.case)
  have n2: "enc_narrow ?rs 3 ?s2 = Inr ?s3"
    by (simp add: enc_narrow_def map_get_def narrow_def)
  have "degenerate (enc_low ?s3, enc_high ?s3)"
    by (simp add: degenerate_def)
  then have r2: "enc_renorm ?s3 = None" by (rule enc_renorm_diverges)
  have e: "encode_loop ?rs (0 # 3 # ?rest) enc_init = None"
    by (simp only: encode_loop.simps n1 r1 n2 r2 sum.case option.case)
  show ?thesis
    unfolding compressFile_def Let_def text_49151 ranges_49151 fst_conv encode_def
    by (simp only: e option.case)
qed

subsection \<open>The scenario \<open>AAAABBBCCD\<close>\<close>

text \<open>
  The ten bytes \<open>AAAABBBCCD\<close>: the container holds four table entries that sum to 10, the
  symbol count 10 and 19 bits, and decompression gives the ten bytes back.
\<close>

lemma roundtrip_AAAABBBCCD:
  "compressFile False [0x41, 0x41, 0x41, 0x41, 0x42, 0x42, 0x42, 0x43, 0x43, 0x44] =
     Some (Inr [4, 0, 0, 0, 0x41, 4, 0, 0, 0, 0x42, 3, 0, 0, 0, 0x43, 2, 0, 0, 0, 0x44, 1, 0, 0, 0,
                10, 0, 0, 0, 19, 0, 0, 0, 0x03, 0xCC, 0x60])
   \<and> decompressFile False
         [4, 0, 0, 0, 0x41, 4, 0, 0, 0, 0x42, 3, 0, 0, 0, 0x43, 2, 0, 0, 0, 0x44, 1, 0, 0, 0,
          10, 0, 0, 0, 19, 0, 0, 0, 0x03, 0xCC, 0x60] =
       Some (Inr [0x41, 0x41, 0x41, 0x41, 0x42, 0x42, 0x42, 0x43, 0x43, 0x44])"
  by code_simp

subsection \<open>The encoder within its precision\<close>

text \<open>
  When the frequency total is at most \<open>2 ^ 14\<close>, the source's encoder returns, and what it
  returns is the bit sequence of the specification's encoder: for each symbol in order the
  narrowing \<open>high = low + range * symbolHigh / total - 1\<close>,
  \<open>low = low + range * symbolLow / total\<close> in exact arithmetic with truncating division, then
  E1, E2 or E3 until none holds (each such loop ends), and after the last symbol the
  resolving bit and \<open>pendingBits + 1\<close> complementary bits. \<^verbatim>\<open>compressFile\<close> writes that
  sequence after the table and the length. The bound on the length is the one under which
  this proof shows that the 32-bit counter \<^verbatim>\<open>pending_bits\<close> does not wrap: every symbol adds at
  most 16 to it.
\<close>

lemma encode_refines_spec_encode:
  assumes "total_nat (calculateFrequencies sg ws) \<le> 2 ^ 14" and "length ws < 2 ^ 28"
  shows "\<exists>out. encode (fst (buildCumulativeFreq sg (calculateFrequencies sg ws))) ws = Some (Inr out)
    \<and> spec_encode (spec_ranges (calculateFrequencies sg ws)) ws = Some out
    \<and> compressFile sg ws =
        Some (Inr (le32 (word_of_nat (length (calculateFrequencies sg ws)))
                   @ write_freq (calculateFrequencies sg ws)
                   @ le32 (word_of_nat (length ws)) @ writeBitVector out))"
proof -
  let ?f = "calculateFrequencies sg ws"
  let ?rs = "fst (buildCumulativeFreq sg ?f)"
  have ft: "freq_table sg ?f" by (rule freq_table_calculateFrequencies)
  then have srt: "sorted_wrt (char_less sg) (map fst ?f)" by (simp add: freq_table_def)
  have t32: "total_nat ?f < 2 ^ 32" using assms(1) by simp
  have rs: "\<exists>r. map_of ?rs c = Some r
        \<and> map_of (spec_ranges ?f) c = Some (unat (low r), unat (high r), unat (count r))
        \<and> unat (low r) < unat (high r) \<and> unat (high r) \<le> unat (count r)
        \<and> unat (count r) \<le> 16384" if "c \<in> set ws" for c
  proof -
    from text_ranges[OF that, of sg] obtain r where r: "map_of ?rs c = Some r"
      "unat (low r) < unat (high r)" "unat (high r) \<le> unat (count r)"
      "unat (count r) = total_nat ?f" by blast
    from spec_ranges_lookup[OF srt t32 r(1)] r assms(1) show ?thesis by auto
  qed
  have w: "wide (enc_low enc_init, enc_high enc_init)"
    by (simp add: enc_init_def wide_def interval_ok_def consts_val)
  have p0: "unat (pending_bits enc_init) \<le> 16 * 0" by (simp add: enc_init_def)
  have bd: "16 * (0 + length ws) + 1 < 2 ^ 32" using assms(2) by simp
  from loop_sim[OF rs w p0 bd] obtain s' where
    l: "encode_loop ?rs ws enc_init = Some (Inr s')"
    and sl: "spec_loop (spec_ranges ?f) ws (abstract enc_init) = Some (abstract s')"
    and p: "unat (pending_bits s') \<le> 16 * (0 + length ws)" by blast
  from p assms(2) have "unat (pending_bits s') + 1 < 2 ^ 32" by simp
  note fin = finish_sim[OF this]
  have e: "encode ?rs ws = Some (Inr (enc_finish s'))"
    by (simp add: encode_def l)
  have se: "spec_encode (spec_ranges ?f) ws = Some (enc_finish s')"
    using sl by (simp add: spec_encode_def abstract_init fin)
  have c: "compressFile sg ws =
        Some (Inr (le32 (word_of_nat (length ?f)) @ write_freq ?f
                   @ le32 (word_of_nat (length ws)) @ writeBitVector (enc_finish s')))"
    by (simp add: compressFile_def Let_def e)
  from e se c show ?thesis by blast
qed

lemma encode_refines_spec_encode_AB:
  "total_nat (calculateFrequencies False [0x41, 0x42]) \<le> 2 ^ 14
   \<and> length [0x41, 0x42 :: byte] < 2 ^ 28
   \<and> encode (fst (buildCumulativeFreq False (calculateFrequencies False [0x41, 0x42]))) [0x41, 0x42] =
       Some (Inr [False, True, False, True])
   \<and> spec_encode (spec_ranges (calculateFrequencies False [0x41, 0x42])) [0x41, 0x42] =
       Some [False, True, False, True]"
proof -
  let ?ws = "[0x41, 0x42] :: byte list"
  have "total_nat (calculateFrequencies False ?ws) = 2"
    by code_simp
  then have t: "total_nat (calculateFrequencies False ?ws) \<le> 2 ^ 14" by simp
  have n: "length ?ws < 2 ^ 28" by simp
  have e: "encode (fst (buildCumulativeFreq False (calculateFrequencies False ?ws))) ?ws =
       Some (Inr [False, True, False, True])"
    by code_simp
  from encode_refines_spec_encode[OF t n] obtain out where
    "encode (fst (buildCumulativeFreq False (calculateFrequencies False ?ws))) ?ws = Some (Inr out)"
    and s: "spec_encode (spec_ranges (calculateFrequencies False ?ws)) ?ws = Some out" by blast
  with e have "out = [False, True, False, True]" by simp
  with s t n e show ?thesis by simp
qed

section \<open>Round trip\<close>

text \<open>
  C1. The claim: decompressing the container that compression produces gives back the
  input, for every byte sequence. The program misses it on the two bytes \<open>AB\<close>:
  compression emits the four bits 0101, the decoder primes \<open>value\<close> with them as the
  number 5 (its priming loop stops after four bits and leaves them at the bottom of the
  16-bit register), and decodes \<open>AA\<close>. This holds for either signedness of \<^verbatim>\<open>char\<close>.
\<close>

theorem roundtrip_AB_decodes_AA:
  "compressFile False [0x41, 0x42] =
     Some (Inr [2, 0, 0, 0, 0x41, 1, 0, 0, 0, 0x42, 1, 0, 0, 0, 2, 0, 0, 0, 4, 0, 0, 0, 0x50])
   \<and> decompressFile False
         [2, 0, 0, 0, 0x41, 1, 0, 0, 0, 0x42, 1, 0, 0, 0, 2, 0, 0, 0, 4, 0, 0, 0, 0x50] =
       Some (Inr [0x41, 0x41])
   \<and> compressFile True [0x41, 0x42] =
       Some (Inr [2, 0, 0, 0, 0x41, 1, 0, 0, 0, 0x42, 1, 0, 0, 0, 2, 0, 0, 0, 4, 0, 0, 0, 0x50])
   \<and> decompressFile True
         [2, 0, 0, 0, 0x41, 1, 0, 0, 0, 0x42, 1, 0, 0, 0, 2, 0, 0, 0, 4, 0, 0, 0, 0x50] =
       Some (Inr [0x41, 0x41])"
  by code_simp

section \<open>The encoder\<close>

text \<open>
  C2. The claim: for every input the encoder narrows the interval by
  \<open>high = low + range * symbolHigh / total - 1\<close> and \<open>low = low + range * symbolLow / total\<close>,
  renormalises with E1, E2 or E3 until none holds, and after the last symbol emits the final
  bits. The program misses it on inputs whose frequency total is large: \<^verbatim>\<open>MAX_FREQ\<close> caps the
  count of each byte, not the total, and the coder works on 16 bits with 32-bit products.
  On four bytes 4 followed by 16383 bytes each of 0, 1, 2 and 3 the total is \<open>2 ^ 16\<close> and
  the range of byte 4 is \<open>[65532, 65536)\<close>: the formula gives \<open>high = 65535\<close> for the first
  symbol, the source computes \<open>range * symbolHigh\<close> modulo \<open>2 ^ 32\<close>, which is 0, and gets
  \<open>high = 0 - 1 = 4294967295\<close>. On the bytes 0, 3, then 16382 bytes 0, 16383 bytes 1, one byte
  2 and 16383 bytes 4 (total 49151) the second narrowing leaves \<open>low = 29125\<close> and
  \<open>high = 29124\<close>, one of E1 and E2 holds from then on, and \<^verbatim>\<open>compressFile\<close> never returns.
  Both hold for either signedness of \<^verbatim>\<open>char\<close>.
\<close>

theorem encoder_misses_formula:
  "enc_narrow
     (fst (buildCumulativeFreq False (calculateFrequencies False
        (4 # 4 # 4 # 4 # replicate 16383 0 @ replicate 16383 1 @ replicate 16383 2 @ replicate 16383 3))))
     4 enc_init =
     Inr \<lparr>enc_low = 65532, enc_high = 0xFFFFFFFF, pending_bits = 0, output_bits = []\<rparr>
   \<and> enc_narrow
     (fst (buildCumulativeFreq True (calculateFrequencies True
        (4 # 4 # 4 # 4 # replicate 16383 0 @ replicate 16383 1 @ replicate 16383 2 @ replicate 16383 3))))
     4 enc_init =
     Inr \<lparr>enc_low = 65532, enc_high = 0xFFFFFFFF, pending_bits = 0, output_bits = []\<rparr>
   \<and> map_of (spec_ranges (calculateFrequencies False
        (4 # 4 # 4 # 4 # replicate 16383 0 @ replicate 16383 1 @ replicate 16383 2 @ replicate 16383 3)))
       4 = Some (65532, 65536, 65536)
   \<and> map_of (spec_ranges (calculateFrequencies True
        (4 # 4 # 4 # 4 # replicate 16383 0 @ replicate 16383 1 @ replicate 16383 2 @ replicate 16383 3)))
       4 = Some (65532, 65536, 65536)
   \<and> spec_narrow (65532, 65536, 65536) spec_init =
       \<lparr>s_low = 65532, s_high = 65535, s_pending = 0, s_bits = []\<rparr>
   \<and> unat (0xFFFFFFFF :: u32) = 4294967295
   \<and> compressFile False
        (0 # 3 # replicate 16382 0 @ replicate 16383 1 @ 2 # replicate 16383 4) = None
   \<and> compressFile True
        (0 # 3 # replicate 16382 0 @ replicate 16383 1 @ 2 # replicate 16383 4) = None"
proof -
  have 1: "enc_narrow
     (fst (buildCumulativeFreq sg (calculateFrequencies sg
        (4 # 4 # 4 # 4 # replicate 16383 0 @ replicate 16383 1 @ replicate 16383 2 @ replicate 16383 3))))
     4 enc_init =
     Inr \<lparr>enc_low = 65532, enc_high = 0xFFFFFFFF, pending_bits = 0, output_bits = []\<rparr>" for sg
    unfolding text_65536 ranges_65536 fst_conv
    by (simp add: enc_narrow_def map_get_def narrow_def enc_init_def TOP_def)
  have 2: "map_of (spec_ranges (calculateFrequencies sg
        (4 # 4 # 4 # 4 # replicate 16383 0 @ replicate 16383 1 @ replicate 16383 2 @ replicate 16383 3)))
       4 = Some (65532, 65536, 65536)" for sg
    unfolding text_65536 by (simp add: spec_ranges_def)
  have 3: "spec_narrow (65532, 65536, 65536) spec_init =
       \<lparr>s_low = 65532, s_high = 65535, s_pending = 0, s_bits = []\<rparr>"
    by (simp add: spec_narrow_def spec_init_def spec_consts)
  have 4: "unat (0xFFFFFFFF :: u32) = 4294967295" by simp
  from 1[of False] 1[of True] 2[of False] 2[of True] 3 4
    compress_never_returns[of False] compress_never_returns[of True]
  show ?thesis by (intro conjI)
qed

section \<open>A scaled value in no interval\<close>

text \<open>
  C3, as amended. When the scaled value lies in the interval of no entry of \<open>ranges\<close>, the
  decoder reports nothing: the scan leaves \<open>symbol\<close> at 0, byte 0 is appended to the
  output, and the interval is narrowed with the range that \<^verbatim>\<open>ranges[0]\<close> gives. The step
  stops only in a division by zero, when the coder's range is 0 or when the \<open>count\<close> of
  that range is 0 (as it is when byte 0 has no entry).
\<close>

theorem unmatched_scaled_value:
  assumes "\<forall>p \<in> set ranges. \<not> in_range (scaled tot s) (snd p)"
  shows "find_symbol ranges (scaled tot s) = 0
    \<and> dec_narrow ranges tot s =
        (if dec_high s - dec_low s + 1 = 0 \<or> count (map_get \<lparr>low = 0, high = 0, count = 0\<rparr> ranges 0) = 0
         then Inl DivisionByZero
         else Inr (s\<lparr>dec_low := dec_low s + ((dec_high s - dec_low s + 1) *
                                     low (map_get \<lparr>low = 0, high = 0, count = 0\<rparr> ranges 0))
                                   div count (map_get \<lparr>low = 0, high = 0, count = 0\<rparr> ranges 0),
                      dec_high := dec_low s + ((dec_high s - dec_low s + 1) *
                                     high (map_get \<lparr>low = 0, high = 0, count = 0\<rparr> ranges 0))
                                   div count (map_get \<lparr>low = 0, high = 0, count = 0\<rparr> ranges 0) - 1,
                      result := result s @ [0]\<rparr>))"
  using find_symbol_unmatched[OF assms]
  by (simp add: dec_narrow_def narrow_def Let_def)

theorem unmatched_scaled_value_witness:
  "(\<not> in_range (scaled 65540 \<lparr>dec_low = 0, dec_high = 49151, dec_value = 49152, bit_index = 2, result = [1]\<rparr>)
        \<lparr>low = 0, high = 1, count = 65540\<rparr>)
   \<and> (\<not> in_range (scaled 65540 \<lparr>dec_low = 0, dec_high = 49151, dec_value = 49152, bit_index = 2, result = [1]\<rparr>)
        \<lparr>low = 1, high = 65540, count = 65540\<rparr>)
   \<and> dec_narrow [(0, \<lparr>low = 0, high = 1, count = 65540\<rparr>), (1, \<lparr>low = 1, high = 65540, count = 65540\<rparr>)]
        65540 \<lparr>dec_low = 0, dec_high = 49151, dec_value = 49152, bit_index = 2, result = [1]\<rparr> =
       Inr \<lparr>dec_low = 0, dec_high = 0xFFFFFFFF, dec_value = 49152, bit_index = 2, result = [1, 0]\<rparr>"
proof -
  let ?s = "\<lparr>dec_low = 0, dec_high = 49151, dec_value = 49152, bit_index = 2, result = [1]\<rparr>"
  let ?rs = "[(0, \<lparr>low = 0, high = 1, count = 65540\<rparr>), (1, \<lparr>low = 1, high = 65540, count = 65540\<rparr>)] :: SymbolRange cmap"
  have sc: "scaled 65540 ?s = 65541"
    by (simp add: scaled_def)
  have n0: "\<not> in_range (scaled 65540 ?s) \<lparr>low = 0, high = 1, count = 65540\<rparr>"
    unfolding sc by (simp add: in_range_def)
  have n1: "\<not> in_range (scaled 65540 ?s) \<lparr>low = 1, high = 65540, count = 65540\<rparr>"
    unfolding sc by (simp add: in_range_def)
  from n0 n1 have h: "\<forall>p \<in> set ?rs. \<not> in_range (scaled 65540 ?s) (snd p)" by simp
  from unmatched_scaled_value[OF h] n0 n1 show ?thesis
    by (simp add: map_get_def)
qed

text \<open>
  C3 as stated, a hard failure and never a silent symbol, fails on the container with the
  table \<open>{0: 1, 1: 65539}\<close>, two symbols to decode and the two bits 11: after the first
  symbol the scaled value is 65541, above the total 65540 and in no interval, and
  decompression returns the bytes 1, 0 without any failure.
\<close>

theorem unmatched_scaled_value_silent:
  "buildCumulativeFreq False [(0, 1), (1, 65539)] =
     ([(0, \<lparr>low = 0, high = 1, count = 65540\<rparr>), (1, \<lparr>low = 1, high = 65540, count = 65540\<rparr>)], 65540)
   \<and> decode_loop [(0, \<lparr>low = 0, high = 1, count = 65540\<rparr>), (1, \<lparr>low = 1, high = 65540, count = 65540\<rparr>)]
        65540 [True, True] 1 (dec_init [True, True]) =
       Some (Inr \<lparr>dec_low = 0, dec_high = 49151, dec_value = 49152, bit_index = 2, result = [1]\<rparr>)
   \<and> scaled 65540 \<lparr>dec_low = 0, dec_high = 49151, dec_value = 49152, bit_index = 2, result = [1]\<rparr> = 65541
   \<and> \<not> in_range 65541 \<lparr>low = 0, high = 1, count = 65540\<rparr>
   \<and> \<not> in_range 65541 \<lparr>low = 1, high = 65540, count = 65540\<rparr>
   \<and> decompressFile False
        [2, 0, 0, 0, 0, 1, 0, 0, 0, 1, 3, 0, 1, 0, 2, 0, 0, 0, 2, 0, 0, 0, 0xC0] =
       Some (Inr [1, 0])"
  by code_simp

section \<open>Order of the alphabet\<close>

text \<open>
  C4, as amended. The frequency table is kept, and iterated, in the order of
  \<^verbatim>\<open>std::less<char>\<close>: ascending byte value 0 to 255 where \<^verbatim>\<open>char\<close> is unsigned, and
  two's complement order (bytes 128 to 255 before bytes 0 to 127) where \<^verbatim>\<open>char\<close> is
  signed. The cumulative ranges list the symbols in the order of the table. The decoder
  rebuilds from the entries that the encoder wrote the encoder's own table, in the same
  order, and whatever entries a container holds, the decoder's table and ranges are in that
  order too.
\<close>

theorem alphabet_order:
  "sorted_wrt (char_less sg) (map fst (calculateFrequencies sg ws))
   \<and> map fst (fst (buildCumulativeFreq sg (calculateFrequencies sg ws))) =
       map fst (calculateFrequencies sg ws)
   \<and> read_freq sg (length (calculateFrequencies sg ws))
        (write_freq (calculateFrequencies sg ws) @ rest) [] =
       Inr (calculateFrequencies sg ws, rest)
   \<and> (case read_freq sg n inp [] of
         Inl f \<Rightarrow> True
       | Inr (freq, rest') \<Rightarrow>
           sorted_wrt (char_less sg) (map fst freq)
           \<and> map fst (fst (buildCumulativeFreq sg freq)) = map fst freq)
   \<and> char_less False = (\<lambda>a b. unat a < unat b)
   \<and> char_less True = (\<lambda>a b. sint a < sint b)"
proof -
  have s: "sorted_wrt (char_less sg) (map fst (calculateFrequencies sg ws))"
    by (rule sorted_calculateFrequencies)
  have k: "map fst (fst (buildCumulativeFreq sg freq)) = map fst freq"
    if "sorted_wrt (char_less sg) (map fst freq)" for freq
    by (simp add: buildCumulativeFreq_sorted[OF that] keys_cum_ranges)
  have r: "read_freq sg (length (calculateFrequencies sg ws))
        (write_freq (calculateFrequencies sg ws) @ rest) [] = Inr (calculateFrequencies sg ws, rest)"
    using read_freq_write_freq[of sg "[]" "calculateFrequencies sg ws" rest] s by simp
  have d: "(case read_freq sg n inp [] of
         Inl f \<Rightarrow> True
       | Inr (freq, rest') \<Rightarrow>
           sorted_wrt (char_less sg) (map fst freq)
           \<and> map fst (fst (buildCumulativeFreq sg freq)) = map fst freq)"
    using sorted_read_freq[of sg "[]" n inp] k
    by (auto split: sum.splits)
  show ?thesis
    using s k[OF s] r d by (auto simp: char_less_def fun_eq_iff)
qed

text \<open>
  C4 as stated, ascending byte value for every input, fails where \<^verbatim>\<open>char\<close> is signed: for
  the input 01 80 the table and the ranges list byte 128 before byte 1.
\<close>

theorem alphabet_order_signed_char:
  "calculateFrequencies True [0x01, 0x80] = [(0x80, 1), (0x01, 1)]
   \<and> \<not> sorted_wrt (\<lambda>a b. unat a < unat b) (map fst (calculateFrequencies True [0x01, 0x80]))
   \<and> fst (buildCumulativeFreq True (calculateFrequencies True [0x01, 0x80])) =
       [(0x80, \<lparr>low = 0, high = 1, count = 2\<rparr>), (0x01, \<lparr>low = 1, high = 2, count = 2\<rparr>)]"
  by code_simp

section \<open>Malformed containers\<close>




section \<open>Bit sink and bit source: the claim\<close>

text \<open>
  C6, as amended. A bit sequence of fewer than \<open>2 ^ 32\<close> bits, of any length modulo 8,
  written by \<^verbatim>\<open>writeBitVector\<close> (the 32-bit count, then the bits packed most significant bit
  first, the last byte padded with zero bits) and read back by \<^verbatim>\<open>readBitVector\<close> comes back
  unchanged: the padding bits are not read.
\<close>

theorem bit_vector_roundtrip:
  "length bits < 2 ^ 32 \<Longrightarrow> readBitVector (writeBitVector bits) = Inr bits"
  by (simp add: read_write_take)

theorem bit_vector_roundtrip_witness:
  "length [True, False, True] < (2::nat) ^ 32
   \<and> writeBitVector [True, False, True] = [3, 0, 0, 0, 0xA0]
   \<and> readBitVector [3, 0, 0, 0, 0xA0] = Inr [True, False, True]"
  using bit_vector_roundtrip[of "[True, False, True]"]
  by (simp add: writeBitVector_def le32_def)

text \<open>
  C6 as stated, for every bit sequence, fails at \<open>2 ^ 32\<close> zero bits: the count
  \<^verbatim>\<open>uint32_t bitSize = bits.size()\<close> is 0 and nothing is read back.
\<close>

theorem bit_vector_count_wraps:
  "readBitVector (writeBitVector (replicate (2 ^ 32) False)) = Inr []
   \<and> readBitVector (writeBitVector (replicate (2 ^ 32) False)) \<noteq> Inr (replicate (2 ^ 32) False)"
proof -
  have ne: "replicate (2 ^ 32) False \<noteq> ([] :: bool list)"
    by (simp only: replicate_empty) simp
  have rd: "readBitVector (writeBitVector (replicate (2 ^ 32) False)) = Inr []"
    unfolding read_write_take by (simp only: length_replicate mod_self take_0)
  show ?thesis
    unfolding rd using ne by (simp only: sum.inject) (blast dest: sym)
qed

section \<open>The interval never closes\<close>

text \<open>
  C7, as amended. Through the encoding of an input whose frequency total is at most
  \<open>2 ^ 13\<close>, and through the decoding of a container whose table has a total of at most
  \<open>2 ^ 13\<close> (whatever its bits and its symbol count), every state of the coder, after the
  initialisation, after every narrowing and after every renormalisation step, has
  \<open>low < high \<le> TOP\<close>. For a total up to \<open>2 ^ 14\<close> in the encoder, and below \<open>2 ^ 16\<close>
  in the decoder, the interval stays non-empty: \<open>low \<le> high \<le> TOP\<close>.
\<close>

theorem interval_invariant:
  "(total_nat (calculateFrequencies sg ws) \<le> 16384 \<longrightarrow>
      enc_run (fst (buildCumulativeFreq sg (calculateFrequencies sg ws))) ws (cs, ph, s) \<longrightarrow>
      enc_low s \<le> enc_high s \<and> enc_high s \<le> TOP
      \<and> (total_nat (calculateFrequencies sg ws) \<le> 8192 \<longrightarrow> enc_low s < enc_high s))
   \<and> (total_nat (table_of sg entries) < 65536 \<longrightarrow>
      dec_run (fst (buildCumulativeFreq sg (table_of sg entries)))
        (snd (buildCumulativeFreq sg (table_of sg entries))) bits n (k, ph', d) \<longrightarrow>
      dec_low d \<le> dec_high d \<and> dec_high d \<le> TOP
      \<and> (total_nat (table_of sg entries) \<le> 8192 \<longrightarrow> dec_low d < dec_high d))"
proof (intro conjI impI)
  let ?rs = "fst (buildCumulativeFreq sg (calculateFrequencies sg ws))"
  let ?T = "total_nat (calculateFrequencies sg ws)"
  assume T: "?T \<le> 16384" and run: "enc_run ?rs ws (cs, ph, s)"
  have rs: "\<exists>r. map_of ?rs c = Some r
      \<and> unat (low r) < unat (high r) \<and> unat (high r) \<le> unat (count r) \<and> unat (count r) \<le> ?T"
    if "c \<in> set ws" for c
    using text_ranges[OF that, of sg] by auto
  from enc_run_invariant[OF rs T run]
  have i: "interval_ok (enc_low s, enc_high s)" "?T \<le> 8192 \<longrightarrow> enc_low s < enc_high s"
    by simp_all
  from i(1) show "enc_low s \<le> enc_high s" "enc_high s \<le> TOP"
    by (simp_all add: interval_ok_def)
  assume "?T \<le> 8192"
  with i(2) show "enc_low s < enc_high s" by simp
next
  let ?f = "table_of sg entries"
  assume T: "total_nat ?f < 65536"
    and run: "dec_run (fst (buildCumulativeFreq sg ?f)) (snd (buildCumulativeFreq sg ?f)) bits n (k, ph', d)"
  from dec_run_invariant[OF sorted_table_of T run]
  have i: "interval_ok (dec_low d, dec_high d)" "total_nat ?f \<le> 8192 \<longrightarrow> dec_low d < dec_high d"
    by simp_all
  from i(1) show "dec_low d \<le> dec_high d" "dec_high d \<le> TOP"
    by (simp_all add: interval_ok_def)
  assume "total_nat ?f \<le> 8192"
  with i(2) show "dec_low d < dec_high d" by simp
qed

theorem interval_invariant_witness:
  "total_nat (calculateFrequencies False [0x41, 0x42]) \<le> 8192
   \<and> enc_run (fst (buildCumulativeFreq False (calculateFrequencies False [0x41, 0x42]))) [0x41, 0x42]
        ([0x42], InRenorm, \<lparr>enc_low = 0, enc_high = 32767, pending_bits = 0, output_bits = []\<rparr>)
   \<and> (0 :: u32) < 32767 \<and> (32767 :: u32) \<le> TOP
   \<and> total_nat (table_of False [(0x41, 1), (0x42, 1)]) \<le> 8192
   \<and> dec_run (fst (buildCumulativeFreq False (table_of False [(0x41, 1), (0x42, 1)])))
        (snd (buildCumulativeFreq False (table_of False [(0x41, 1), (0x42, 1)])))
        [False, True, False, True] 2
        (1, InRenorm, \<lparr>dec_low = 0, dec_high = 32767, dec_value = 5, bit_index = 4, result = [0x41]\<rparr>)"
proof -
  let ?ws = "[0x41, 0x42] :: byte list"
  let ?rs = "fst (buildCumulativeFreq False (calculateFrequencies False ?ws))"
  let ?f = "table_of False [(0x41, 1), (0x42, 1)]"
  let ?s = "\<lparr>enc_low = 0, enc_high = 32767, pending_bits = 0, output_bits = []\<rparr>"
  let ?d = "\<lparr>dec_low = 0, dec_high = 32767, dec_value = 5, bit_index = 4, result = [0x41]\<rparr>"
  have t: "total_nat (calculateFrequencies False ?ws) \<le> 8192"
    by code_simp
  have t16: "total_nat (calculateFrequencies False ?ws) \<le> 16384"
    using t by simp
  have "enc_narrow ?rs 0x41 enc_init = Inr ?s"
    by code_simp
  from enc_narrowed[OF enc_start this]
  have e: "enc_run ?rs ?ws ([0x42], InRenorm, ?s)" .
  have td: "total_nat ?f \<le> 8192"
    by code_simp
  have td16: "total_nat ?f < 65536" using td by simp
  have "dec_narrow (fst (buildCumulativeFreq False ?f)) (snd (buildCumulativeFreq False ?f))
          (dec_init [False, True, False, True]) = Inr ?d"
    by code_simp
  from dec_narrowed[OF dec_start[of _ _ _ "Suc 1"] this]
  have dr: "dec_run (fst (buildCumulativeFreq False ?f)) (snd (buildCumulativeFreq False ?f))
      [False, True, False, True] 2 (1, InRenorm, ?d)" by (simp only: Suc_1)
  from interval_invariant[of False ?ws "[0x42]" InRenorm ?s "[(0x41, 1), (0x42, 1)]"
      "[False, True, False, True]" 2 1 InRenorm ?d] t t16 e td td16 dr
  show ?thesis by simp
qed

text \<open>
  C7 as stated, for any input, fails on an input of 65533 bytes: one byte 2 followed by
  16383 bytes each of 0, 1, 3 and 4. The total is 65533, the range of byte 2 is
  \<open>[32766, 32767)\<close>, and the narrowing for the first symbol gives \<open>low = high = 32767\<close>.
\<close>

theorem interval_degenerates:
  "enc_run
     (fst (buildCumulativeFreq False (calculateFrequencies False
        (2 # replicate 16383 0 @ replicate 16383 1 @ replicate 16383 3 @ replicate 16383 4))))
     (2 # replicate 16383 0 @ replicate 16383 1 @ replicate 16383 3 @ replicate 16383 4)
     (replicate 16383 0 @ replicate 16383 1 @ replicate 16383 3 @ replicate 16383 4, InRenorm,
      \<lparr>enc_low = 32767, enc_high = 32767, pending_bits = 0, output_bits = []\<rparr>)
   \<and> \<not> ((32767 :: u32) < 32767)"
proof -
  let ?ws = "2 # replicate 16383 0 @ replicate 16383 1 @ replicate 16383 3 @ replicate 16383 (4 :: byte)"
  have rs: "fst (buildCumulativeFreq False (calculateFrequencies False ?ws)) =
      [(0, \<lparr>low = 0, high = 16383, count = 65533\<rparr>), (1, \<lparr>low = 16383, high = 32766, count = 65533\<rparr>),
       (2, \<lparr>low = 32766, high = 32767, count = 65533\<rparr>), (3, \<lparr>low = 32767, high = 49150, count = 65533\<rparr>),
       (4, \<lparr>low = 49150, high = 65533, count = 65533\<rparr>)]"
    unfolding text_65533 by code_simp
  have "enc_narrow (fst (buildCumulativeFreq False (calculateFrequencies False ?ws))) 2 enc_init =
      Inr \<lparr>enc_low = 32767, enc_high = 32767, pending_bits = 0, output_bits = []\<rparr>"
    unfolding rs by code_simp
  from enc_narrowed[OF enc_start this] show ?thesis by simp
qed

text \<open>
  C8. The frequency table of an input holds exactly the distinct bytes of the input, each
  once, each with a count \<open>v\<close> with \<open>0 < v \<le> 16383\<close> that is the number of its
  occurrences clamped at 16383; appending one more occurrence of \<open>c\<close> adds 1 to the
  count of \<open>c\<close> unless that count is already \<open>MAX_FREQ\<close>, and changes no other
  entry; the empty input gives the empty table. \<open>calculateFrequencies\<close> has no failure.
\<close>

theorem frequency_table:
  "calculateFrequencies sg [] = []
   \<and> fst ` set (calculateFrequencies sg ws) = set ws
   \<and> distinct (map fst (calculateFrequencies sg ws))
   \<and> (\<forall>(c, v) \<in> set (calculateFrequencies sg ws).
         0 < v \<and> v \<le> MAX_FREQ \<and> unat v = min (count_list ws c) 16383)
   \<and> map_of (calculateFrequencies sg ws) c =
         (if c \<in> set ws then Some (word_of_nat (min (count_list ws c) 16383)) else None)
   \<and> map_of (calculateFrequencies sg (ws @ [c])) =
         (map_of (calculateFrequencies sg ws))
           (c \<mapsto> (if map_get 0 (calculateFrequencies sg ws) c < MAX_FREQ
                  then map_get 0 (calculateFrequencies sg ws) c + 1
                  else map_get 0 (calculateFrequencies sg ws) c))"
proof -
  have e: "0 < v \<and> v \<le> MAX_FREQ \<and> unat v = min (count_list ws c) 16383"
    if "(c, v) \<in> set (calculateFrequencies sg ws)" for c v
  proof -
    from calculateFrequencies_entry[OF that]
    have c: "c \<in> set ws" and v: "v = word_of_nat (min (count_list ws c) 16383)" by auto
    have u: "unat v = min (count_list ws c) 16383"
      unfolding v by (simp add: unat_of_nat min_def)
    with count_list_pos[OF c] show ?thesis
      by (simp add: MAX_FREQ_def word_le_nat_alt word_less_nat_alt)
  qed
  show ?thesis
    using e
    by (auto simp: keys_calculateFrequencies sorted_char_less_distinct[OF sorted_calculateFrequencies]
        map_of_calculateFrequencies calculateFrequencies_snoc map_of_freq_step
        calculateFrequencies_def[of sg "[]"])
qed

theorem frequency_table_witness:
  "calculateFrequencies True [0x41, 0x42, 0x41] = [(0x41, 2), (0x42, 1)]
   \<and> (0::u32) < 2 \<and> (2::u32) \<le> MAX_FREQ \<and> unat (2::u32) = min (count_list [0x41, 0x42, 0x41 :: byte] 0x41) 16383
   \<and> map_of (calculateFrequencies True ([0x41, 0x42] @ [0x41])) = [0x41 \<mapsto> 2, 0x42 \<mapsto> 1]"
proof -
  have t: "calculateFrequencies True [0x41, 0x42, 0x41] = [(0x41, 2), (0x42, 1)]"
    by code_simp
  have t2: "calculateFrequencies True [0x41, 0x42] = [(0x41, 1), (0x42, 1)]"
    by code_simp
  have m: "(1::u32) < MAX_FREQ" by (simp add: MAX_FREQ_def)
  from frequency_table[of True "[0x41, 0x42]" "0x41"] t t2 m show ?thesis
    by (auto simp: map_get_def MAX_FREQ_def fun_upd_twist)
qed

text \<open>
  C9. For a non-empty frequency table (entries in map order, every count \<open>v\<close> with
  \<open>0 < v \<le> MAX_FREQ\<close>) the ranges of \<^verbatim>\<open>buildCumulativeFreq\<close> keep the order of the table
  and tile \<open>[0, total)\<close>: the first \<open>low\<close> is 0, every \<open>high\<close> is the next \<open>low\<close>, the
  last \<open>high\<close> is \<open>total\<close>, every interval is non-empty and carries \<open>total\<close> as its
  \<open>count\<close>. So every \<open>v < total\<close> lies in the interval of exactly one entry, and the
  decoder's linear scan returns the symbol of that entry.
\<close>

theorem cumulative_ranges_tile:
  assumes "freq_table sg freq" and "freq \<noteq> []"
  shows "map fst (fst (buildCumulativeFreq sg freq)) = map fst freq
    \<and> low (snd (hd (fst (buildCumulativeFreq sg freq)))) = 0
    \<and> (\<forall>i. Suc i < length freq \<longrightarrow>
          high (snd (fst (buildCumulativeFreq sg freq) ! i)) =
          low (snd (fst (buildCumulativeFreq sg freq) ! Suc i)))
    \<and> high (snd (last (fst (buildCumulativeFreq sg freq)))) = snd (buildCumulativeFreq sg freq)
    \<and> (\<forall>p \<in> set (fst (buildCumulativeFreq sg freq)).
          low (snd p) < high (snd p) \<and> count (snd p) = snd (buildCumulativeFreq sg freq))
    \<and> (\<forall>v < snd (buildCumulativeFreq sg freq).
          (\<exists>!p. p \<in> set (fst (buildCumulativeFreq sg freq)) \<and> in_range v (snd p))
          \<and> (\<exists>r. (find_symbol (fst (buildCumulativeFreq sg freq)) v, r)
                   \<in> set (fst (buildCumulativeFreq sg freq)) \<and> in_range v r))"
proof -
  let ?tot = "sum_counts freq"
  let ?rs = "cum_ranges ?tot 0 freq"
  from assms(1) have srt: "sorted_wrt (char_less sg) (map fst freq)"
    and pos: "list_all (\<lambda>p. 0 < snd p) freq"
    by (auto simp: freq_table_def list_all_iff)
  have b: "buildCumulativeFreq sg freq = (?rs, ?tot)"
    by (rule buildCumulativeFreq_sorted[OF srt])
  have t: "unat ?tot = total_nat freq"
    by (rule freq_table_unat_total[OF assms(1)])
  have o: "unat (0::u32) + total_nat freq < 2 ^ 32"
    using freq_table_sum[OF assms(1)] by simp
  have 1: "map fst ?rs = map fst freq" by (rule keys_cum_ranges)
  have 2: "low (snd (hd ?rs)) = 0" by (rule cum_ranges_first[OF assms(2)])
  have 3: "\<forall>i. Suc i < length freq \<longrightarrow> high (snd (?rs ! i)) = low (snd (?rs ! Suc i))"
    using cum_ranges_adjacent[of _ ?tot 0 freq] by (simp add: length_cum_ranges)
  have 4: "high (snd (last ?rs)) = ?tot"
    using cum_ranges_last[OF assms(2), of ?tot 0] by (simp add: sum_counts_sum_list)
  have 5: "\<forall>p \<in> set ?rs. low (snd p) < high (snd p) \<and> count (snd p) = ?tot"
    using cum_ranges_nonempty[OF o pos] count_cum_ranges by blast
  have 6: "(\<exists>!p. p \<in> set ?rs \<and> in_range v (snd p))
      \<and> (\<exists>r. (find_symbol ?rs v, r) \<in> set ?rs \<and> in_range v r)" if "v < ?tot" for v
  proof -
    from that t have "unat v < unat (0::u32) + total_nat freq"
      by (simp add: word_less_nat_alt)
    from cum_ranges_find[OF o _ this, of ?tot]
    obtain r where r: "(find_symbol ?rs v, r) \<in> set ?rs" "in_range v r" by auto
    have "\<exists>!p. p \<in> set ?rs \<and> in_range v (snd p)"
    proof (rule ex1I[of _ "(find_symbol ?rs v, r)"])
      show "(find_symbol ?rs v, r) \<in> set ?rs \<and> in_range v (snd (find_symbol ?rs v, r))"
        using r by simp
    next
      fix p assume "p \<in> set ?rs \<and> in_range v (snd p)"
      then show "p = (find_symbol ?rs v, r)"
        using cum_ranges_unique[OF o, of p ?tot v "(find_symbol ?rs v, r)"] r by simp
    qed
    with r show ?thesis by blast
  qed
  show ?thesis
    unfolding b fst_conv snd_conv using 1 2 3 4 5 6 by blast
qed

theorem cumulative_ranges_tile_witness:
  "freq_table False [(0x41, 4), (0x42, 3), (0x43, 2), (0x44, 1)]
   \<and> [(0x41, 4), (0x42, 3), (0x43, 2), (0x44, 1)] \<noteq> ([] :: u32 cmap)
   \<and> buildCumulativeFreq False [(0x41, 4), (0x42, 3), (0x43, 2), (0x44, 1)] =
       ([(0x41, \<lparr>low = 0, high = 4, count = 10\<rparr>), (0x42, \<lparr>low = 4, high = 7, count = 10\<rparr>),
         (0x43, \<lparr>low = 7, high = 9, count = 10\<rparr>), (0x44, \<lparr>low = 9, high = 10, count = 10\<rparr>)], 10)
   \<and> (\<exists>!p. p \<in> set [(0x41, \<lparr>low = 0, high = 4, count = 10\<rparr>), (0x42, \<lparr>low = 4, high = 7, count = 10\<rparr>),
         (0x43, \<lparr>low = 7, high = 9, count = 10\<rparr>), (0x44 :: byte, \<lparr>low = 9, high = 10, count = 10\<rparr>)]
        \<and> in_range 8 (snd p))"
proof -
  let ?f = "[(0x41, 4), (0x42, 3), (0x43, 2), (0x44, 1)] :: u32 cmap"
  have f: "freq_table False ?f"
    by (simp add: freq_table_def char_less_def MAX_FREQ_def)
  have n: "?f \<noteq> []" by simp
  have b: "buildCumulativeFreq False ?f =
       ([(0x41, \<lparr>low = 0, high = 4, count = 10\<rparr>), (0x42, \<lparr>low = 4, high = 7, count = 10\<rparr>),
         (0x43, \<lparr>low = 7, high = 9, count = 10\<rparr>), (0x44, \<lparr>low = 9, high = 10, count = 10\<rparr>)], 10)"
    by (simp add: buildCumulativeFreq_def sum_counts_def char_less_def)
  have "(8::u32) < 10" by simp
  with cumulative_ranges_tile[OF f n] show ?thesis
    unfolding b fst_conv snd_conv using f by blast
qed

section \<open>The 32-bit products\<close>

text \<open>
  C10. The narrowing is the one of the source, and its products \<open>range * high\<close> and
  \<open>range * low\<close>, like the decoder's \<open>(value - low + 1) * total\<close>, are products of 32-bit
  words: the product of the numbers modulo \<open>2 ^ 32\<close>. When the total of the frequency table
  is below \<open>2 ^ 16\<close>, every such product that a run of the encoder or of the decoder
  computes is below \<open>2 ^ 32\<close>, so the word product is the product of the numbers. The
  total of a table never exceeds \<open>256 * 16383\<close> and reaches it on the input that holds every
  byte 16383 times; and on an input with total \<open>2 ^ 16\<close> (four bytes 4 followed by 16383
  bytes each of 0, 1, 2 and 3) the first product \<open>range * high\<close> is \<open>2 ^ 32\<close> and wraps
  to 0.
\<close>

theorem coder_products:
  fixes d d' :: decoder
  shows
  "narrow r lh =
     (if count r = 0 then Inl DivisionByZero
      else Inr (fst lh + (snd lh - fst lh + 1) * low r div count r,
                fst lh + (snd lh - fst lh + 1) * high r div count r - 1))
   \<and> unat ((snd lh - fst lh + 1) * high r) = (range_of lh * unat (high r)) mod 2 ^ 32
   \<and> unat ((snd lh - fst lh + 1) * low r) = (range_of lh * unat (low r)) mod 2 ^ 32
   \<and> unat ((dec_value d - dec_low d + 1) * tot) =
        (unat (dec_value d - dec_low d + 1) * unat tot) mod 2 ^ 32
   \<and> (total_nat (calculateFrequencies sg ws) < 2 ^ 16 \<longrightarrow>
        enc_run (fst (buildCumulativeFreq sg (calculateFrequencies sg ws))) ws (c # cs, AtSymbol, s) \<longrightarrow>
        range_of (enc_low s, enc_high s) *
          unat (high (map_get \<lparr>low = 0, high = 0, count = 0\<rparr>
            (fst (buildCumulativeFreq sg (calculateFrequencies sg ws))) c)) < 2 ^ 32
        \<and> range_of (enc_low s, enc_high s) *
          unat (low (map_get \<lparr>low = 0, high = 0, count = 0\<rparr>
            (fst (buildCumulativeFreq sg (calculateFrequencies sg ws))) c)) < 2 ^ 32)
   \<and> (total_nat (table_of sg entries) < 2 ^ 16 \<longrightarrow>
        dec_run (fst (buildCumulativeFreq sg (table_of sg entries)))
          (snd (buildCumulativeFreq sg (table_of sg entries))) bits n (Suc k, AtSymbol, d') \<longrightarrow>
        unat (dec_value d' - dec_low d' + 1) * unat (snd (buildCumulativeFreq sg (table_of sg entries)))
          < 2 ^ 32
        \<and> range_of (dec_low d', dec_high d') *
          unat (high (map_get \<lparr>low = 0, high = 0, count = 0\<rparr>
            (fst (buildCumulativeFreq sg (table_of sg entries)))
            (find_symbol (fst (buildCumulativeFreq sg (table_of sg entries)))
               (scaled (snd (buildCumulativeFreq sg (table_of sg entries))) d')))) < 2 ^ 32
        \<and> range_of (dec_low d', dec_high d') *
          unat (low (map_get \<lparr>low = 0, high = 0, count = 0\<rparr>
            (fst (buildCumulativeFreq sg (table_of sg entries)))
            (find_symbol (fst (buildCumulativeFreq sg (table_of sg entries)))
               (scaled (snd (buildCumulativeFreq sg (table_of sg entries))) d')))) < 2 ^ 32)
   \<and> total_nat (calculateFrequencies sg ws) \<le> 256 * 16383
   \<and> total_nat (calculateFrequencies sg (concat (replicate 16383 all_bytes))) = 256 * 16383
   \<and> total_nat (calculateFrequencies sg
        (4 # 4 # 4 # 4 # replicate 16383 0 @ replicate 16383 1 @ replicate 16383 2 @ replicate 16383 3))
       = 2 ^ 16
   \<and> map_get \<lparr>low = 0, high = 0, count = 0\<rparr>
        (fst (buildCumulativeFreq sg (calculateFrequencies sg
          (4 # 4 # 4 # 4 # replicate 16383 0 @ replicate 16383 1 @ replicate 16383 2 @ replicate 16383 3))))
        4 = \<lparr>low = 65532, high = 65536, count = 65536\<rparr>
   \<and> range_of (enc_low enc_init, enc_high enc_init) * unat (65536 :: u32) = 2 ^ 32
   \<and> (enc_high enc_init - enc_low enc_init + 1) * 65536 = (0 :: u32)"
proof -
  have m: "unat (a * b) = (unat a * unat b) mod 2 ^ 32" for a b :: u32
    by (simp only: unat_word_ariths(2)) simp
  have 1: "unat ((snd lh - fst lh + 1) * x) = (range_of lh * unat x) mod 2 ^ 32" for x
    by (simp only: m range_of_def)
  have 5: "range_of (enc_low s, enc_high s) *
          unat (high (map_get \<lparr>low = 0, high = 0, count = 0\<rparr>
            (fst (buildCumulativeFreq sg (calculateFrequencies sg ws))) c)) < 2 ^ 32
        \<and> range_of (enc_low s, enc_high s) *
          unat (low (map_get \<lparr>low = 0, high = 0, count = 0\<rparr>
            (fst (buildCumulativeFreq sg (calculateFrequencies sg ws))) c)) < 2 ^ 32"
    if "total_nat (calculateFrequencies sg ws) < 2 ^ 16"
      "enc_run (fst (buildCumulativeFreq sg (calculateFrequencies sg ws))) ws (c # cs, AtSymbol, s)"
    using enc_products[OF _ that(2)] that(1) by simp
  have 6: "unat (dec_value d' - dec_low d' + 1) * unat (snd (buildCumulativeFreq sg (table_of sg entries)))
          < 2 ^ 32
        \<and> range_of (dec_low d', dec_high d') *
          unat (high (map_get \<lparr>low = 0, high = 0, count = 0\<rparr>
            (fst (buildCumulativeFreq sg (table_of sg entries))) x)) < 2 ^ 32
        \<and> range_of (dec_low d', dec_high d') *
          unat (low (map_get \<lparr>low = 0, high = 0, count = 0\<rparr>
            (fst (buildCumulativeFreq sg (table_of sg entries))) x)) < 2 ^ 32"
    if t: "total_nat (table_of sg entries) < 2 ^ 16"
      and run: "dec_run (fst (buildCumulativeFreq sg (table_of sg entries)))
          (snd (buildCumulativeFreq sg (table_of sg entries))) bits n (Suc k, AtSymbol, d')" for x
  proof -
    from t have t': "total_nat (table_of sg entries) < 65536" by simp
    from dec_run_invariant[OF sorted_table_of t' run]
    have ok: "interval_ok (dec_low d', dec_high d')"
      and v: "dec_low d' \<le> dec_value d'" "dec_value d' \<le> dec_high d'" by simp_all
    from dec_products[OF sorted_table_of t' ok v] show ?thesis by blast
  qed
  have 7: "total_nat (calculateFrequencies sg ws) \<le> 256 * 16383"
    by (rule freq_table_sum[OF freq_table_calculateFrequencies])
  have 9: "total_nat (calculateFrequencies sg
        (4 # 4 # 4 # 4 # replicate 16383 0 @ replicate 16383 1 @ replicate 16383 2 @ replicate 16383 3))
       = 2 ^ 16"
    unfolding text_65536 by (simp add: total_nat_def)
  have 10: "map_get \<lparr>low = 0, high = 0, count = 0\<rparr>
        (fst (buildCumulativeFreq sg (calculateFrequencies sg
          (4 # 4 # 4 # 4 # replicate 16383 0 @ replicate 16383 1 @ replicate 16383 2 @ replicate 16383 3))))
        4 = \<lparr>low = 65532, high = 65536, count = 65536\<rparr>"
    unfolding text_65536 ranges_65536 by (simp add: map_get_def)
  have 11: "range_of (enc_low enc_init, enc_high enc_init) * unat (65536 :: u32) = 2 ^ 32"
    by (simp add: enc_init_def range_of_def consts_val)
  have 12: "(enc_high enc_init - enc_low enc_init + 1) * 65536 = (0 :: u32)"
    by (simp add: enc_init_def consts_val)
  show ?thesis
    using narrow_mod(1)[of r lh] 1[of "high r"] 1[of "low r"] m[of "dec_value d - dec_low d + 1" tot]
      5 6 7 total_reaches_max[of sg] 9 10 11 12
    by blast
qed


theorem coder_products_witness:
  "total_nat (calculateFrequencies False [0x41, 0x42]) < 2 ^ 16
   \<and> enc_run (fst (buildCumulativeFreq False (calculateFrequencies False [0x41, 0x42]))) [0x41, 0x42]
        ([0x41, 0x42], AtSymbol, enc_init)
   \<and> range_of (enc_low enc_init, enc_high enc_init) *
        unat (high (map_get \<lparr>low = 0, high = 0, count = 0\<rparr>
          (fst (buildCumulativeFreq False (calculateFrequencies False [0x41, 0x42]))) 0x41)) < 2 ^ 32
   \<and> total_nat (table_of False [(0x41, 1), (0x42, 1)]) < 2 ^ 16
   \<and> dec_run (fst (buildCumulativeFreq False (table_of False [(0x41, 1), (0x42, 1)])))
        (snd (buildCumulativeFreq False (table_of False [(0x41, 1), (0x42, 1)])))
        [False, True, False, True] 2 (2, AtSymbol, dec_init [False, True, False, True])
   \<and> unat (dec_value (dec_init [False, True, False, True])
              - dec_low (dec_init [False, True, False, True]) + 1) *
        unat (snd (buildCumulativeFreq False (table_of False [(0x41, 1), (0x42, 1)]))) < 2 ^ 32"
proof -
  let ?ws = "[0x41, 0x42] :: byte list"
  let ?bits = "[False, True, False, True]"
  let ?es = "[(0x41, 1), (0x42, 1)] :: u32 cmap"
  have "total_nat (calculateFrequencies False ?ws) = 2"
    by code_simp
  then have t: "total_nat (calculateFrequencies False ?ws) < 2 ^ 16"
    by simp
  have e: "enc_run (fst (buildCumulativeFreq False (calculateFrequencies False ?ws))) ?ws
      (0x41 # [0x42], AtSymbol, enc_init)"
    by (rule enc_start)
  have "total_nat (table_of False ?es) = 2"
    by code_simp
  then have td: "total_nat (table_of False ?es) < 2 ^ 16"
    by simp
  have dr: "dec_run (fst (buildCumulativeFreq False (table_of False ?es)))
      (snd (buildCumulativeFreq False (table_of False ?es))) ?bits (Suc 1) (Suc 1, AtSymbol, dec_init ?bits)"
    by (rule dec_start)
  note cp = coder_products[where sg = False and ws = ?ws and c = "0x41" and cs = "[0x42]"
      and s = enc_init and entries = ?es and bits = ?bits and n = "Suc 1" and k = 1
      and d' = "dec_init ?bits"]
  note c5 = cp[THEN conjunct2, THEN conjunct2, THEN conjunct2, THEN conjunct2, THEN conjunct1,
      rule_format, OF t e, THEN conjunct1]
  note c6 = cp[THEN conjunct2, THEN conjunct2, THEN conjunct2, THEN conjunct2, THEN conjunct2,
      THEN conjunct1, rule_format, OF td dr, THEN conjunct1]
  have dr2: "dec_run (fst (buildCumulativeFreq False (table_of False ?es)))
      (snd (buildCumulativeFreq False (table_of False ?es))) ?bits 2 (2, AtSymbol, dec_init ?bits)"
    using dr by (simp only: Suc_1)
  have e2: "enc_run (fst (buildCumulativeFreq False (calculateFrequencies False ?ws))) ?ws
      (?ws, AtSymbol, enc_init)"
    by (rule enc_start)
  show ?thesis
    by (intro conjI) (rule t e2 c5 td dr2 c6)+
qed

end
